theory Spec2Isabelle
  imports Main "HOL-Library.Char_ord" "HOL-Library.List_Lexorder" "HOL-Library.Multiset"
begin

section \<open>A shallow embedding of the site builder \<^verbatim>\<open>photos.py\<close>\<close>

text \<open>
  The build command of \<^verbatim>\<open>photos.py\<close> assembles a static photo site: it resolves images
  (\<^verbatim>\<open>process_image\<close>), asks once per tag path whether the tag may be shown, threads the
  posts of every blog and of every filter-driven section into a chain of backward and
  forward links, writes Atom and RSS feeds, and renders every page through a template.

  Conventions of the model.
  \<^item> A Python \<^verbatim>\<open>str\<close> is a \<^typ>\<open>string\<close>; a character is its code point, so the model covers
    the code points below 256. Comparison of strings is lexicographic on code points, as
    in Python.
  \<^item> A \<^verbatim>\<open>datetime\<close> is the instant it denotes, in microseconds since the epoch; aware
    datetimes compare by instant.
  \<^item> A raised exception and \<^verbatim>\<open>exit(1)\<close> are values \<open>Inl e\<close> of a sum type.
  \<^item> The mutable dictionaries and the sqlite tables of the build are fields of an
    explicit build context that every operation takes and returns.
  \<^item> Standard input is the list of the lines still to be read; \<^verbatim>\<open>input\<close> on an empty
    list raises \<^verbatim>\<open>EOFError\<close>.
  \<^item> The photo store, the date formatting of the standard library and the template
    engine are parameters.
\<close>

subsection \<open>Errors\<close>

datatype error =
    SystemExit string
  | EOFError
  | NotImplementedError
  | JSONDecodeError
  | ValueError
  | TypeError
  | IndexError
  | OSError
  | KeyError
  | AttributeError
  | TemplateError

subsection \<open>Strings\<close>

definition rsplit_head :: "char \<Rightarrow> string \<Rightarrow> string" where
  \<comment> \<open>\<^verbatim>\<open>s.rsplit(sep, 1)[0]\<close>: what stands before the last separator, all of \<open>s\<close> without one\<close>
  "rsplit_head sep s =
     (if sep \<in> set s then rev (tl (dropWhile (\<lambda>c. c \<noteq> sep) (rev s))) else s)"

fun split_on :: "char \<Rightarrow> string \<Rightarrow> string list" where
  \<comment> \<open>\<^verbatim>\<open>s.split(sep)\<close>\<close>
  "split_on sep [] = [[]]"
| "split_on sep (c # cs) =
     (if c = sep then [] # split_on sep cs
      else (case split_on sep cs of [] \<Rightarrow> [[c]] | p # ps \<Rightarrow> (c # p) # ps))"

definition split_head :: "char \<Rightarrow> string \<Rightarrow> string" where
  \<comment> \<open>\<^verbatim>\<open>s.split(sep, 1)[0]\<close>\<close>
  "split_head sep s = takeWhile (\<lambda>c. c \<noteq> sep) s"

definition replace_char :: "char \<Rightarrow> char \<Rightarrow> string \<Rightarrow> string" where
  \<comment> \<open>\<^verbatim>\<open>s.replace(a, b)\<close> for one-character strings\<close>
  "replace_char a b s = map (\<lambda>c. if c = a then b else c) s"

definition startswith :: "string \<Rightarrow> string \<Rightarrow> bool" where
  "startswith s p = (take (length p) s = p)"

definition join :: "string \<Rightarrow> string list \<Rightarrow> string" where
  \<comment> \<open>\<^verbatim>\<open>sep.join(parts)\<close>\<close>
  "join sep parts = (case parts of [] \<Rightarrow> [] | p # ps \<Rightarrow> foldl (\<lambda>acc q. acc @ sep @ q) p ps)"

definition digit_char :: "nat \<Rightarrow> char" where
  "digit_char d = char_of (48 + d)"

fun str_nat :: "nat \<Rightarrow> string" where
  "str_nat n = (if n < 10 then [digit_char n] else str_nat (n div 10) @ [digit_char (n mod 10)])"

declare str_nat.simps [simp del]

definition str_int :: "int \<Rightarrow> string" where
  \<comment> \<open>\<^verbatim>\<open>str(i)\<close> of a Python integer\<close>
  "str_int i = (if i < 0 then CHR ''-'' # str_nat (nat (- i)) else str_nat (nat i))"

definition is_decimal :: "char \<Rightarrow> bool" where
  "is_decimal c = (48 \<le> (of_char c :: nat) \<and> (of_char c :: nat) \<le> 57)"

definition is_numeric_char :: "char \<Rightarrow> bool" where
  \<comment> \<open>the code points below 256 that \<^verbatim>\<open>str.isnumeric\<close> accepts: the ten digits,
      superscript one, two and three, and the fractions a quarter, a half, three quarters\<close>
  "is_numeric_char c = (is_decimal c \<or> (of_char c :: nat) \<in> {178, 179, 185, 188, 189, 190})"

definition isnumeric :: "string \<Rightarrow> bool" where
  "isnumeric s = (s \<noteq> [] \<and> list_all is_numeric_char s)"

definition int_of_str :: "string \<Rightarrow> error + int" where
  \<comment> \<open>\<^verbatim>\<open>int(s)\<close> on a string that passed \<^verbatim>\<open>isnumeric\<close>: only decimal digits convert\<close>
  "int_of_str s =
     (if s \<noteq> [] \<and> list_all is_decimal s
      then Inr (foldl (\<lambda>a c. 10 * a + (int (of_char c) - 48)) 0 s)
      else Inl ValueError)"

definition is_ascii_alnum :: "char \<Rightarrow> bool" where
  \<comment> \<open>\<^verbatim>\<open>symbol.isalnum() and symbol.isascii()\<close>\<close>
  "is_ascii_alnum c =
     (let n = (of_char c :: nat)
      in (48 \<le> n \<and> n \<le> 57) \<or> (65 \<le> n \<and> n \<le> 90) \<or> (97 \<le> n \<and> n \<le> 122))"

definition lower_char :: "char \<Rightarrow> char" where
  \<comment> \<open>\<^verbatim>\<open>str.lower\<close> on one code point below 256\<close>
  "lower_char c =
     (let n = (of_char c :: nat)
      in if (65 \<le> n \<and> n \<le> 90) \<or> (192 \<le> n \<and> n \<le> 222 \<and> n \<noteq> 215) then char_of (n + 32) else c)"

definition tag_slug :: "string \<Rightarrow> string" where
  \<comment> \<open>the URL-safe name of a tag path\<close>
  "tag_slug tag =
     map (\<lambda>symbol.
            if is_ascii_alnum symbol then lower_char symbol
            else if symbol = CHR ''/'' then CHR ''_''
            else if symbol \<in> set ''.-'' then symbol
            else CHR ''-'') tag"

definition path_name :: "string \<Rightarrow> string" where
  \<comment> \<open>\<^verbatim>\<open>Path.name\<close>: the last component\<close>
  "path_name p = rev (takeWhile (\<lambda>c. c \<noteq> CHR ''/'') (rev p))"

definition has_suffix :: "string \<Rightarrow> bool" where
  \<comment> \<open>pathlib (up to Python 3.13): the last dot of the name is neither its first nor its
      last character\<close>
  "has_suffix name =
     (let ext = takeWhile (\<lambda>c. c \<noteq> CHR ''.'') (rev name)
      in CHR ''.'' \<in> set name \<and> ext \<noteq> [] \<and> length ext + 1 < length name)"

definition path_suffix :: "string \<Rightarrow> string" where
  "path_suffix name =
     (if has_suffix name then CHR ''.'' # rev (takeWhile (\<lambda>c. c \<noteq> CHR ''.'') (rev name)) else [])"

definition path_stem :: "string \<Rightarrow> string" where
  "path_stem name = (if has_suffix name then rsplit_head (CHR ''.'') name else name)"

subsection \<open>Images and the build context\<close>

type_synonym datetime = int

record image =
  image_id :: int
  full_path :: "string option"
  creation_date :: datetime
  exif :: "(string \<times> string) list option"
  image_tags :: "string list"
  image_title :: "string option"
  image_alt :: "string option"
  image_caption :: "string option"

text \<open>
  The dictionary \<^verbatim>\<open>image_data\<close> that \<^verbatim>\<open>process_image\<close> returns and caches. Its
  \<^verbatim>\<open>timestamp\<close> entry is the float of \<^verbatim>\<open>datetime\<close> and is not kept apart.
\<close>

record image_data =
  d_id :: int
  d_date :: string
  d_datetime :: datetime
  d_title :: "string option"
  d_alt :: "string option"
  d_caption :: "string option"
  d_file :: string
  d_tags :: "string list list"

record store =
  get_image :: "int \<Rightarrow> image option"
    \<comment> \<open>\<^verbatim>\<open>api.get_image\<close>\<close>
  search_images :: "string list option \<Rightarrow> string list option \<Rightarrow> image list"
    \<comment> \<open>\<^verbatim>\<open>api.search_images\<close>, ordered by creation date\<close>
  db_images :: "int \<Rightarrow> string option"
    \<comment> \<open>table \<^verbatim>\<open>images\<close>: the persisted date overrides; the build only reads it\<close>
  strftime_ymd :: "datetime \<Rightarrow> string"
    \<comment> \<open>\<^verbatim>\<open>strftime("%Y-%m-%d")\<close>\<close>
  max_timestamp :: int
    \<comment> \<open>the largest value \<^verbatim>\<open>datetime.fromtimestamp\<close> accepts\<close>

record ctx =
  all_images :: "int \<rightharpoonup> image_data"
  all_tags :: "string \<rightharpoonup> int list"
  tag_paths :: "string \<rightharpoonup> string"
  db_tags :: "string \<rightharpoonup> bool"
    \<comment> \<open>table \<^verbatim>\<open>tags\<close>: the persisted decisions\<close>
  stdin :: "string list"
  stdout :: "string list"
  image_files :: "string set"
    \<comment> \<open>the files present in the output directory \<^verbatim>\<open>images\<close>\<close>

subsection \<open>Tag authorization\<close>

definition retype_message :: string where
  "retype_message = ''please type '' @ [char_of (39::nat), CHR ''y'', char_of (39::nat)] @ '' or ''
     @ [char_of (39::nat), CHR ''n'', char_of (39::nat)]"

fun ask :: "string \<Rightarrow> string list \<Rightarrow> error + (bool \<times> string list \<times> string list)" where
  \<comment> \<open>the loop \<^verbatim>\<open>while allowed is None\<close>: the answer, the input left, what was written\<close>
  "ask prompt [] = Inl EOFError"
| "ask prompt (response # rest) =
     (if response = ''y'' then Inr (True, rest, [prompt])
      else if response = ''n'' then Inr (False, rest, [prompt])
      else (case ask prompt rest of
              Inl e \<Rightarrow> Inl e
            | Inr (allowed, rest', out) \<Rightarrow> Inr (allowed, rest', prompt # retype_message # out)))"

definition decide :: "string \<Rightarrow> ctx \<Rightarrow> error + (bool \<times> ctx)" where
  \<comment> \<open>the persisted decision for exactly this path; asked for and persisted when absent\<close>
  "decide tag c =
     (case db_tags c tag of
        Some allowed \<Rightarrow> Inr (allowed, c)
      | None \<Rightarrow>
          (case ask (''allow #'' @ tag @ ''? y/n'') (stdin c) of
             Inl e \<Rightarrow> Inl e
           | Inr (allowed, rest, out) \<Rightarrow>
               Inr (allowed, c\<lparr>db_tags := (db_tags c)(tag \<mapsto> allowed),
                               stdin := rest, stdout := stdout c @ out\<rparr>)))"

lemma rsplit_head_shorter [simp]:
  "sep \<in> set s \<Longrightarrow> length (rsplit_head sep s) < length s"
proof -
  assume a: "sep \<in> set s"
  then have "dropWhile (\<lambda>c. c \<noteq> sep) (rev s) \<noteq> []" by simp
  then have "length (tl (dropWhile (\<lambda>c. c \<noteq> sep) (rev s))) < length (dropWhile (\<lambda>c. c \<noteq> sep) (rev s))"
    by (cases "dropWhile (\<lambda>c. c \<noteq> sep) (rev s)") simp_all
  also have "\<dots> \<le> length (rev s)" by (rule length_dropWhile_le)
  finally show ?thesis using a by (simp add: rsplit_head_def)
qed

function register :: "int \<Rightarrow> string \<Rightarrow> ctx \<Rightarrow> ctx" where
  \<comment> \<open>the inner loop: the path and every shorter prefix enter the tag index\<close>
  "register iid tag c =
     (if tag = [] then c
      else
        let c' = (case all_tags c tag of
                    None \<Rightarrow> c\<lparr>all_tags := (all_tags c)(tag \<mapsto> [iid]),
                               tag_paths := (tag_paths c)(tag \<mapsto> tag_slug tag)\<rparr>
                  | Some ids \<Rightarrow> c\<lparr>all_tags := (all_tags c)(tag \<mapsto> ids @ [iid])\<rparr>)
        in if CHR ''/'' \<in> set tag then register iid (rsplit_head (CHR ''/'') tag) c' else c')"
  by pat_completeness auto
termination
  by (relation "measure (\<lambda>(i, tag, c). length tag)") auto

declare register.simps [simp del]

function walk :: "int \<Rightarrow> string \<Rightarrow> string list list \<times> ctx \<Rightarrow> error + (string list list \<times> ctx)" where
  \<comment> \<open>the loop \<^verbatim>\<open>while tag\<close> for one raw tag of the image\<close>
  "walk iid tag (tags, c) =
     (if tag = [] then Inr (tags, c)
      else
        (case decide tag c of
           Inl e \<Rightarrow> Inl e
         | Inr (allowed, c') \<Rightarrow>
             if allowed then Inr (tags @ [split_on (CHR ''/'') tag], register iid tag c')
             else if CHR ''/'' \<in> set tag then walk iid (rsplit_head (CHR ''/'') tag) (tags, c')
             else Inr (tags, c')))"
  by pat_completeness auto
termination
  by (relation "measure (\<lambda>(i, tag, s). length tag)") auto

declare walk.simps [simp del]

fun walk_tags :: "int \<Rightarrow> string list \<Rightarrow> string list list \<times> ctx \<Rightarrow> error + (string list list \<times> ctx)" where
  \<comment> \<open>the loop \<^verbatim>\<open>for tag in image.tags\<close>\<close>
  "walk_tags iid [] s = Inr s"
| "walk_tags iid (tag # rest) s =
     (case walk iid tag s of Inl e \<Rightarrow> Inl e | Inr s' \<Rightarrow> walk_tags iid rest s')"

subsection \<open>Resolving an image\<close>

definition exif_date :: "string \<Rightarrow> string" where
  \<comment> \<open>the date part of \<^verbatim>\<open>DateTimeOriginal\<close>, its colons turned into dashes\<close>
  "exif_date v = replace_char (CHR '':'') (CHR ''-'') (split_head (CHR '' '') v)"

definition process_image :: "store \<Rightarrow> int + image \<Rightarrow> ctx \<Rightarrow> error + (image_data \<times> ctx)" where
  "process_image st id_or_image c =
     (let (iid, given) = (case id_or_image of Inl i \<Rightarrow> (i, None) | Inr im \<Rightarrow> (image_id im, Some im))
      in case all_images c iid of
           Some cached \<Rightarrow> Inr (cached, c)
         | None \<Rightarrow>
             (case (case given of None \<Rightarrow> get_image st iid | Some im \<Rightarrow> Some im) of
                None \<Rightarrow> Inl (SystemExit (''can't find image: '' @ str_int iid))
              | Some im \<Rightarrow>
                  (case full_path im of
                     None \<Rightarrow> Inl (SystemExit (''can't find image: '' @ str_int iid))
                   | Some p \<Rightarrow>
                       let extension = map lower_char (path_suffix (path_name p));
                           image_file = str_int (image_id im) @ extension;
                           c1 = c\<lparr>image_files := insert image_file (image_files c)\<rparr>;
                           date0 = strftime_ymd st (creation_date im);
                           date1 = (case exif im of
                                      None \<Rightarrow> date0
                                    | Some ex \<Rightarrow>
                                        if ex \<noteq> [] then
                                          (case map_of ex ''DateTimeOriginal'' of
                                             Some v \<Rightarrow> exif_date v
                                           | None \<Rightarrow> date0)
                                        else date0);
                           date = (case db_images st (image_id im) of
                                     Some row \<Rightarrow> row
                                   | None \<Rightarrow> date1)
                       in case walk_tags iid (image_tags im) ([], c1) of
                            Inl e \<Rightarrow> Inl e
                          | Inr (tags, c2) \<Rightarrow>
                              let data = \<lparr>d_id = image_id im, d_date = date,
                                          d_datetime = creation_date im,
                                          d_title = image_title im, d_alt = image_alt im,
                                          d_caption = image_caption im,
                                          d_file = image_file, d_tags = tags\<rparr>
                              in Inr (data, c2\<lparr>all_images := (all_images c2)(image_id im \<mapsto> data)\<rparr>))))"

subsection \<open>Post entries and the loop state of a section\<close>

type_synonym comment = "string \<times> string"

record entry =
  e_slug :: string
  e_title :: string
  e_description :: "string option"
  e_date :: string
  e_datetime :: "datetime option"
    \<comment> \<open>only the posts of a blog carry the key \<^verbatim>\<open>datetime\<close>\<close>
  e_images :: "image_data list"
  e_tags :: "string list list"
  e_backward :: "string option"
  e_forward :: "string option"
  e_comments :: "comment list"

record loop_state =
  ls_entries :: "entry list"
  ls_dates :: "string set"
  ls_previous :: "string option"
  ls_comments :: "(string \<times> comment list) list"

definition pop :: "string \<Rightarrow> (string \<times> comment list) list \<Rightarrow> comment list \<times> (string \<times> comment list) list" where
  \<comment> \<open>\<^verbatim>\<open>comments.pop(key, [])\<close>\<close>
  "pop key cs =
     (case map_of cs key of
        None \<Rightarrow> ([], cs)
      | Some v \<Rightarrow> (v, filter (\<lambda>kv. fst kv \<noteq> key) cs))"

definition set_forward :: "string \<Rightarrow> entry list \<Rightarrow> entry list" where
  \<comment> \<open>\<^verbatim>\<open>if entries: entries[-1]["forward"] = slug\<close>\<close>
  "set_forward slug es =
     (if es = [] then es else es[length es - 1 := (last es)\<lparr>e_forward := Some slug\<rparr>])"

definition unused_comments :: "(string \<times> comment list) list \<Rightarrow> string list" where
  \<comment> \<open>what \<^verbatim>\<open>if comments: print(...)\<close> writes\<close>
  "unused_comments cs =
     (if cs = [] then [] else [''Unused comments: '' @ join '', '' (map fst cs)])"

definition initial_state :: "(string \<times> comment list) list \<Rightarrow> loop_state" where
  "initial_state cs = \<lparr>ls_entries = [], ls_dates = {}, ls_previous = None, ls_comments = cs\<rparr>"

subsection \<open>Filter-driven sections\<close>

record section_config =
  sc_title :: string
  sc_slug :: string
  sc_description :: "string option"
  sc_icon :: "string option"
  sc_creators :: "string list option"
  sc_min_rating :: "int option"
  sc_all_tags :: "string list option"
  sc_no_tags :: "string list option"
  sc_comments :: "(string \<times> comment list) list"

definition section_slug :: "string set \<Rightarrow> image_data \<Rightarrow> string" where
  \<comment> \<open>the slug of the post of an image, given the dates the section has used\<close>
  "section_slug dates d =
     (if d_date d \<in> dates then d_date d @ ''-'' @ str_int (d_id d) @ ''.html''
      else d_date d @ ''.html'')"

definition section_step :: "section_config \<Rightarrow> image_data \<Rightarrow> loop_state \<Rightarrow> loop_state" where
  \<comment> \<open>the body of the loop over the images found, after \<^verbatim>\<open>process_image\<close>\<close>
  "section_step cfg d ls =
     (let date = d_date d;
          slug = section_slug (ls_dates ls) d;
          dates' = (if date \<in> ls_dates ls then ls_dates ls else insert date (ls_dates ls));
          (cs, comments') = pop (rsplit_head (CHR ''.'') slug) (ls_comments ls)
      in \<lparr>ls_entries =
            set_forward slug (ls_entries ls) @
            [\<lparr>e_slug = slug,
              e_title = (case d_title d of
                           None \<Rightarrow> sc_title cfg
                         | Some t \<Rightarrow> if t = [] then sc_title cfg else t),
              e_description = None,
              e_date = date,
              e_datetime = None,
              e_images = [d],
              e_tags = d_tags d,
              e_backward = ls_previous ls,
              e_forward = None,
              e_comments = cs\<rparr>],
          ls_dates = dates',
          ls_previous = Some slug,
          ls_comments = comments'\<rparr>)"

fun section_loop :: "store \<Rightarrow> section_config \<Rightarrow> image list \<Rightarrow> ctx \<times> loop_state \<Rightarrow> error + (ctx \<times> loop_state)" where
  "section_loop st cfg [] s = Inr s"
| "section_loop st cfg (im # rest) (c, ls) =
     (if full_path im = None then section_loop st cfg rest (c, ls)
      else
        (case process_image st (Inr im) c of
           Inl e \<Rightarrow> Inl e
         | Inr (d, c') \<Rightarrow> section_loop st cfg rest (c', section_step cfg d ls)))"

subsection \<open>Blogs\<close>

record manifest =
  m_title :: string
  m_slug :: string
  m_description :: "string option"
  m_images :: "int list"

record blog_config =
  bc_title :: string
  bc_slug :: string
  bc_description :: "string option"
  bc_icon :: "string option"
  bc_comments :: "(string \<times> comment list) list"

definition fromtimestamp :: "store \<Rightarrow> int \<Rightarrow> error + datetime" where
  \<comment> \<open>beyond the bound the library raises \<^verbatim>\<open>ValueError\<close>, \<^verbatim>\<open>OverflowError\<close> or \<^verbatim>\<open>OSError\<close>,
      depending on the magnitude; the model has one error for all three\<close>
  "fromtimestamp st n = (if n \<le> max_timestamp st then Inr (n * 1000000) else Inl ValueError)"

fun process_images :: "store \<Rightarrow> int list \<Rightarrow> (image_data list \<times> string list list) \<times> ctx
    \<Rightarrow> error + ((image_data list \<times> string list list) \<times> ctx)" where
  \<comment> \<open>the loop over the images of one post; \<open>tags\<close> is a set of tuples, kept here as a
      list without repetition\<close>
  "process_images st [] s = Inr s"
| "process_images st (i # rest) ((post_images, tags), c) =
     (case process_image st (Inl i) c of
        Inl e \<Rightarrow> Inl e
      | Inr (d, c') \<Rightarrow>
          process_images st rest ((post_images @ [d], fold List.insert (d_tags d) tags), c'))"

definition blog_post :: "store \<Rightarrow> string \<Rightarrow> manifest \<Rightarrow> ctx \<times> loop_state \<Rightarrow> error + (ctx \<times> loop_state)" where
  \<comment> \<open>the body of the loop over the manifests, for a file whose stem is numeric\<close>
  "blog_post st stem post_data s =
     (let (c, ls) = s;
          slug = m_slug post_data @ ''.html'';
          (cs, comments') = pop slug (ls_comments ls)
      in case process_images st (m_images post_data) (([], []), c) of
           Inl e \<Rightarrow> Inl e
         | Inr ((post_images, tags), c') \<Rightarrow>
             (case int_of_str stem of
                Inl e \<Rightarrow> Inl e
              | Inr n \<Rightarrow>
                  (case fromtimestamp st n of
                     Inl e \<Rightarrow> Inl e
                   | Inr dt \<Rightarrow>
                       Inr (c',
                            \<lparr>ls_entries =
                               set_forward slug (ls_entries ls) @
                               [\<lparr>e_slug = slug,
                                 e_title = m_title post_data,
                                 e_description = m_description post_data,
                                 e_date = strftime_ymd st dt,
                                 e_datetime = Some dt,
                                 e_images = post_images,
                                 e_tags = tags,
                                 e_backward = ls_previous ls,
                                 e_forward = None,
                                 e_comments = cs\<rparr>],
                             ls_dates = ls_dates ls,
                             ls_previous = Some slug,
                             ls_comments = comments'\<rparr>))))"

fun blog_loop :: "store \<Rightarrow> (string \<times> manifest option) list \<Rightarrow> ctx \<times> loop_state \<Rightarrow> error + (ctx \<times> loop_state)" where
  "blog_loop st [] s = Inr s"
| "blog_loop st ((name, content) # rest) s =
     (if \<not> isnumeric (path_stem name) then blog_loop st rest s
      else
        (case content of
           None \<Rightarrow> Inl JSONDecodeError
         | Some post_data \<Rightarrow>
             (case blog_post st (path_stem name) post_data s of
                Inl e \<Rightarrow> Inl e
              | Inr s' \<Rightarrow> blog_loop st rest s')))"

definition blog_entries :: "store \<Rightarrow> blog_config \<Rightarrow> (string \<times> manifest option) list \<Rightarrow> ctx \<Rightarrow> error + (ctx \<times> loop_state)" where
  \<comment> \<open>\<^verbatim>\<open>for post_path in sorted(path.iterdir(), key=lambda f: f.name)\<close>\<close>
  "blog_entries st cfg files c =
     blog_loop st (sort_key fst files) (c, initial_state (bc_comments cfg))"

definition section_entries :: "store \<Rightarrow> section_config \<Rightarrow> ctx \<Rightarrow> error + (ctx \<times> loop_state)" where
  "section_entries st cfg c =
     section_loop st cfg (search_images st (sc_all_tags cfg) (sc_no_tags cfg))
       (c, initial_state (sc_comments cfg))"

subsection \<open>Pages\<close>

datatype arguments =
    Post entry
  | Index "string option" "string option" "entry list"
      \<comment> \<open>description, icon and entries of a section page\<close>
  | Plain

record page =
  p_relative :: string
  p_template :: string
  p_title :: string
  p_arguments :: arguments
  p_date :: "datetime option"
  p_section :: bool

definition blog_pages :: "blog_config \<Rightarrow> entry list \<Rightarrow> page list" where
  "blog_pages cfg es =
     map (\<lambda>e. \<lparr>p_relative = bc_slug cfg @ ''/'' @ e_slug e, p_template = ''post.html'',
                p_title = e_title e, p_arguments = Post e, p_date = e_datetime e,
                p_section = False\<rparr>) es"

fun section_pages :: "section_config \<Rightarrow> entry list \<Rightarrow> error + page list" where
  \<comment> \<open>the date of a page is \<^verbatim>\<open>entry["images"][0]["datetime"]\<close>\<close>
  "section_pages cfg [] = Inr []"
| "section_pages cfg (e # es) =
     (case e_images e of
        [] \<Rightarrow> Inl IndexError
      | d # _ \<Rightarrow>
          (case section_pages cfg es of
             Inl x \<Rightarrow> Inl x
           | Inr ps \<Rightarrow>
               Inr (\<lparr>p_relative = sc_slug cfg @ ''/'' @ e_slug e, p_template = ''post.html'',
                     p_title = e_title e, p_arguments = Post e, p_date = Some (d_datetime d),
                     p_section = False\<rparr> # ps)))"

subsection \<open>Feeds\<close>

text \<open>
  One loop of \<^verbatim>\<open>render_feeds\<close> appends an entry to the Atom document and an item to the
  RSS document for every page; a \<open>feed_item\<close> holds what both receive. The length and the
  MIME type of the enclosure are read from the copied file and are not part of the model;
  nor are the rendering of the entry through the minimal template and the writing of the
  two documents, which fails while the directory of the section does not exist.
\<close>

record feed_item =
  f_url :: string
  f_title :: string
  f_item_title :: string
  f_date :: datetime
  f_description :: string
  f_enclosure :: string

definition date_key :: "page \<Rightarrow> datetime" where
  "date_key p = (case p_date p of Some d \<Rightarrow> d | None \<Rightarrow> 0)"

definition feed_order :: "page list \<Rightarrow> page list" where
  \<comment> \<open>\<^verbatim>\<open>sorted(pages, key=lambda page: page.date, reverse=True)\<close>: the stable sort of the
      reversed list, reversed\<close>
  "feed_order pages = rev (sort_key date_key (rev pages))"

definition feed_item_of :: "string \<Rightarrow> page \<Rightarrow> error + feed_item" where
  "feed_item_of site page =
     (case p_arguments page of
        Post e \<Rightarrow>
          (case e_images e of
             [] \<Rightarrow> Inl IndexError
           | d # _ \<Rightarrow>
               Inr \<lparr>f_url = ''https://'' @ site @ ''/'' @ p_relative page,
                    f_title = p_title page,
                    f_item_title =
                      (if length (e_images e) > 1
                       then p_title page @ '' ('' @ str_int (int (length (e_images e))) @ '' images)''
                       else p_title page),
                    f_date = date_key page,
                    f_description = (case e_description e of None \<Rightarrow> [] | Some t \<Rightarrow> t),
                    f_enclosure = ''https://'' @ site @ ''/images/'' @ d_file d\<rparr>)
      | _ \<Rightarrow> Inl KeyError)"

fun feed_items :: "string \<Rightarrow> page list \<Rightarrow> error + feed_item list" where
  "feed_items site [] = Inr []"
| "feed_items site (p # ps) =
     (case feed_item_of site p of
        Inl e \<Rightarrow> Inl e
      | Inr item \<Rightarrow>
          (case feed_items site ps of Inl e \<Rightarrow> Inl e | Inr items \<Rightarrow> Inr (item # items)))"

definition render_feeds :: "string \<Rightarrow> page list \<Rightarrow> error + feed_item list" where
  \<comment> \<open>a page without a date stops the sort (two pages or more) or \<^verbatim>\<open>strftime\<close>\<close>
  "render_feeds site pages =
     (if list_ex (\<lambda>p. p_date p = None) pages
      then Inl (if length pages \<ge> 2 then TypeError else AttributeError)
      else feed_items site (feed_order pages))"

subsection \<open>Rendering the pages\<close>

record renderer =
  get_template :: "string \<Rightarrow> error option"
    \<comment> \<open>\<^verbatim>\<open>environment.get_template\<close>: what it raises, if anything\<close>
  mkdir_parent :: "string \<Rightarrow> error option"
    \<comment> \<open>\<^verbatim>\<open>path.parent.mkdir(exist_ok=True)\<close> for a relative path\<close>
  template_render :: "string \<Rightarrow> page \<Rightarrow> (string \<times> string) list \<Rightarrow> error + string"
    \<comment> \<open>\<^verbatim>\<open>template.render\<close> for a template, a page and the navigation bar\<close>

record rendered =
  out_files :: "(string \<times> string) list"
  out_stdout :: "string list"

definition is_exception :: "error \<Rightarrow> bool" where
  \<comment> \<open>what \<^verbatim>\<open>except Exception\<close> catches: \<^verbatim>\<open>SystemExit\<close> is not an \<^verbatim>\<open>Exception\<close>\<close>
  "is_exception e = (case e of SystemExit m \<Rightarrow> False | _ \<Rightarrow> True)"

definition error_name :: "error \<Rightarrow> string" where
  \<comment> \<open>the class of an exception; the program prints \<^verbatim>\<open>repr(exception)\<close>, which also
      shows its arguments\<close>
  "error_name e =
     (case e of
        SystemExit m \<Rightarrow> ''SystemExit''
      | EOFError \<Rightarrow> ''EOFError''
      | NotImplementedError \<Rightarrow> ''NotImplementedError''
      | JSONDecodeError \<Rightarrow> ''JSONDecodeError''
      | ValueError \<Rightarrow> ''ValueError''
      | TypeError \<Rightarrow> ''TypeError''
      | IndexError \<Rightarrow> ''IndexError''
      | OSError \<Rightarrow> ''OSError''
      | KeyError \<Rightarrow> ''KeyError''
      | AttributeError \<Rightarrow> ''AttributeError''
      | TemplateError \<Rightarrow> ''TemplateError'')"

definition render :: "renderer \<Rightarrow> (string \<times> string) list \<Rightarrow> page \<Rightarrow> rendered \<Rightarrow> error + rendered" where
  \<comment> \<open>\<^verbatim>\<open>Page.render\<close>: the template is loaded and the directory made before the
      \<^verbatim>\<open>try\<close>; the file is opened, and so emptied, before the template runs\<close>
  "render r navbar page out =
     (case get_template r (p_template page) of
        Some e \<Rightarrow> Inl e
      | None \<Rightarrow>
          (case mkdir_parent r (p_relative page) of
             Some e \<Rightarrow> Inl e
           | None \<Rightarrow>
               (case template_render r (p_template page) page navbar of
                  Inr text \<Rightarrow> Inr (out\<lparr>out_files := out_files out @ [(p_relative page, text)]\<rparr>)
                | Inl exception \<Rightarrow>
                    if is_exception exception
                    then Inr (out\<lparr>out_files := out_files out @ [(p_relative page, [])],
                                   out_stdout := out_stdout out @
                                     [''building '' @ p_relative page @ '' failed: '' @ error_name exception]\<rparr>)
                    else Inl exception)))"

fun render_pages :: "renderer \<Rightarrow> (string \<times> string) list \<Rightarrow> page list \<Rightarrow> rendered \<Rightarrow> error + rendered" where
  \<comment> \<open>\<^verbatim>\<open>for page in pages: page.render(...)\<close>\<close>
  "render_pages r navbar [] out = Inr out"
| "render_pages r navbar (page # rest) out =
     (case render r navbar page out of
        Inl e \<Rightarrow> Inl e
      | Inr out' \<Rightarrow> render_pages r navbar rest out')"

definition navbar_of :: "page list \<Rightarrow> (string \<times> string) list" where
  "navbar_of pages =
     map (\<lambda>p. (p_relative p,
                case p_arguments p of
                  Index description icon es \<Rightarrow>
                    (case icon of None \<Rightarrow> ''None'' | Some i \<Rightarrow> i) @ '' '' @ p_title p
                | _ \<Rightarrow> p_title p))
       (sort_key p_relative (filter p_section pages))"

subsection \<open>The loop over the site's configuration directory\<close>

datatype node =
    Directory "blog_config option" "(string \<times> manifest option) list"
      \<comment> \<open>the content of \<^verbatim>\<open>config.json\<close> and the files of the directory\<close>
  | File "section_config option"

record site =
  s_ctx :: ctx
  s_pages :: "page list"
  s_all_blog_pages :: "page list"
  s_feeds :: "(string \<times> feed_item list) list"

definition build_blog :: "string \<Rightarrow> store \<Rightarrow> blog_config \<Rightarrow> (string \<times> manifest option) list \<Rightarrow> site \<Rightarrow> error + site" where
  "build_blog domain st cfg files s =
     (case blog_entries st cfg files (s_ctx s) of
        Inl e \<Rightarrow> Inl e
      | Inr (c, ls) \<Rightarrow>
          let c1 = c\<lparr>stdout := stdout c @ unused_comments (ls_comments ls)\<rparr>;
              posts = blog_pages cfg (ls_entries ls);
              index = \<lparr>p_relative = bc_slug cfg @ ''/index.html'', p_template = ''section.html'',
                       p_title = bc_title cfg,
                       p_arguments = Index (bc_description cfg) (bc_icon cfg) (ls_entries ls),
                       p_date = None, p_section = True\<rparr>
          in case render_feeds domain posts of
               Inl e \<Rightarrow> Inl e
             | Inr items \<Rightarrow>
                 Inr (s\<lparr>s_ctx := c1,
                        s_pages := s_pages s @ posts @ [index],
                        s_all_blog_pages := s_all_blog_pages s @ posts,
                        s_feeds := s_feeds s @ [(bc_slug cfg, items)]\<rparr>))"

definition build_section :: "string \<Rightarrow> store \<Rightarrow> section_config \<Rightarrow> site \<Rightarrow> error + site" where
  "build_section domain st cfg s =
     (if sc_min_rating cfg \<noteq> None then Inl NotImplementedError
      else
        (case section_entries st cfg (s_ctx s) of
           Inl e \<Rightarrow> Inl e
         | Inr (c, ls) \<Rightarrow>
             let c1 = c\<lparr>stdout := stdout c @ unused_comments (ls_comments ls)\<rparr>
             in case section_pages cfg (ls_entries ls) of
                  Inl e \<Rightarrow> Inl e
                | Inr posts \<Rightarrow>
                    let index = \<lparr>p_relative = sc_slug cfg @ ''/index.html'',
                                 p_template = ''section.html'', p_title = sc_title cfg,
                                 p_arguments = Index (sc_description cfg) (sc_icon cfg) (ls_entries ls),
                                 p_date = None, p_section = True\<rparr>
                    in case render_feeds domain posts of
                         Inl e \<Rightarrow> Inl e
                       | Inr items \<Rightarrow>
                           Inr (s\<lparr>s_ctx := c1,
                                  s_pages := s_pages s @ posts @ [index],
                                  s_all_blog_pages := s_all_blog_pages s @ posts,
                                  s_feeds := s_feeds s @ [(sc_slug cfg, items)]\<rparr>)))"

definition build_node :: "string \<Rightarrow> store \<Rightarrow> string \<times> node \<Rightarrow> site \<Rightarrow> error + site" where
  \<comment> \<open>one path of the configuration directory; no name starts with both prefixes\<close>
  "build_node domain st entry s =
     (let (name, content) = entry
      in if startswith name ''blog-'' then
           (case content of
              Directory (Some cfg) files \<Rightarrow> build_blog domain st cfg files s
            | Directory None files \<Rightarrow> Inl OSError
            | File f \<Rightarrow> Inl OSError)
         else if startswith name ''section-'' then
           (case content of
              File (Some cfg) \<Rightarrow> build_section domain st cfg s
            | File None \<Rightarrow> Inl JSONDecodeError
            | Directory b files \<Rightarrow> Inl OSError)
         else Inr s)"

fun build_sections :: "string \<Rightarrow> store \<Rightarrow> (string \<times> node) list \<Rightarrow> site \<Rightarrow> error + site" where
  \<comment> \<open>\<^verbatim>\<open>for path in directory.iterdir()\<close>\<close>
  "build_sections domain st [] s = Inr s"
| "build_sections domain st (entry # rest) s =
     (case build_node domain st entry s of
        Inl e \<Rightarrow> Inl e
      | Inr s' \<Rightarrow> build_sections domain st rest s')"

section \<open>Notions used in the statements\<close>

definition requested_id :: "int + image \<Rightarrow> int" where
  \<comment> \<open>the identifier \<^verbatim>\<open>process_image\<close> looks up in its cache\<close>
  "requested_id x = (case x of Inl i \<Rightarrow> i | Inr im \<Rightarrow> image_id im)"

definition resolve :: "store \<Rightarrow> int + image \<Rightarrow> image option" where
  \<comment> \<open>the image record behind the argument of \<^verbatim>\<open>process_image\<close>\<close>
  "resolve st x = (case x of Inl i \<Rightarrow> get_image st i | Inr im \<Rightarrow> Some im)"

definition original_date :: "image \<Rightarrow> string option" where
  \<comment> \<open>the EXIF field \<^verbatim>\<open>DateTimeOriginal\<close>, when the image has it\<close>
  "original_date im = (case exif im of None \<Rightarrow> None | Some ex \<Rightarrow> map_of ex ''DateTimeOriginal'')"

subsection \<open>The chain of links\<close>

fun chained :: "string option \<Rightarrow> entry list \<Rightarrow> bool" where
  "chained prev [] = True"
| "chained prev [e] = (e_backward e = prev \<and> e_forward e = None)"
| "chained prev (e # e' # es) =
     (e_backward e = prev \<and> e_forward e = Some (e_slug e') \<and> chained (Some (e_slug e)) (e' # es))"

definition last_slug :: "entry list \<Rightarrow> string option" where
  "last_slug es = (if es = [] then None else Some (e_slug (last es)))"

definition linked :: "loop_state \<Rightarrow> bool" where
  "linked ls = (chained None (ls_entries ls) \<and> ls_previous ls = last_slug (ls_entries ls))"

subsection \<open>Slugs\<close>

definition numeric_posts :: "(string \<times> manifest option) list \<Rightarrow> manifest list" where
  "numeric_posts files =
     concat (map (\<lambda>(name, content).
                    case content of
                      Some m \<Rightarrow> if isnumeric (path_stem name) then [m] else []
                    | None \<Rightarrow> []) files)"

definition dated :: "loop_state \<Rightarrow> bool" where
  "dated ls =
     ((\<forall>e \<in> set (ls_entries ls). e_date e \<in> ls_dates ls) \<and>
      (\<forall>j < length (ls_entries ls). \<exists>d.
          e_images (ls_entries ls ! j) = [d] \<and> e_date (ls_entries ls ! j) = d_date d \<and>
          (e_slug (ls_entries ls ! j) = d_date d @ ''.html'' \<or>
           e_slug (ls_entries ls ! j) = d_date d @ ''-'' @ str_int (d_id d) @ ''.html'') \<and>
          (\<forall>i < j. e_date (ls_entries ls ! i) = e_date (ls_entries ls ! j) \<longrightarrow>
             e_slug (ls_entries ls ! j) = d_date d @ ''-'' @ str_int (d_id d) @ ''.html'')))"

subsection \<open>The cache of resolved images\<close>

definition cache_agrees :: "image list \<Rightarrow> ctx \<Rightarrow> bool" where
  "cache_agrees found c =
     (\<forall>im \<in> set found. \<forall>d. all_images c (image_id im) = Some d \<longrightarrow> d_datetime d = creation_date im)"

definition same_id_same_date :: "image list \<Rightarrow> bool" where
  "same_id_same_date found =
     (\<forall>im \<in> set found. \<forall>im' \<in> set found.
        image_id im = image_id im' \<longrightarrow> creation_date im = creation_date im')"

subsection \<open>The prefixes of a tag path\<close>

text \<open>
  The path itself and what remains of it when it is cut at its last separator, again and
  again, while something remains: from the most specific prefix to the root.
\<close>

function prefixes :: "string \<Rightarrow> string list" where
  "prefixes tag =
     (if tag = [] then []
      else tag # (if CHR ''/'' \<in> set tag then prefixes (rsplit_head (CHR ''/'') tag) else []))"
  by pat_completeness auto
termination
  by (relation "measure length") auto

declare prefixes.simps [simp del]

definition indexed :: "ctx \<Rightarrow> string \<Rightarrow> int list" where
  "indexed c tag = (case all_tags c tag of None \<Rightarrow> [] | Some ids \<Rightarrow> ids)"

subsection \<open>A small site, for the concrete instances\<close>

definition heron :: image where
  "heron = \<lparr>image_id = 7, full_path = Some ''/photos/IMG_0007.JPG'',
            creation_date = 1600000000000000,
            exif = Some [(''Model'', ''X100''), (''DateTimeOriginal'', ''2020:09:12 18:03:11'')],
            image_tags = [''birds/waders/heron''],
            image_title = Some ''Heron'', image_alt = None, image_caption = None\<rparr>"

definition egret :: image where
  "egret = \<lparr>image_id = 8, full_path = Some ''/photos/IMG_0008.jpg'',
            creation_date = 1600000300000000,
            exif = None,
            image_tags = [],
            image_title = None, image_alt = None, image_caption = None\<rparr>"

definition store0 :: store where
  \<comment> \<open>a photo store with two images; its calendar knows the days the examples fall on\<close>
  "store0 = \<lparr>get_image = (\<lambda>i. if i = 7 then Some heron else if i = 8 then Some egret else None),
             search_images = (\<lambda>required excluded. [heron, egret]),
             db_images = (\<lambda>i. if i = 8 then Some ''2020-09-12'' else None),
             strftime_ymd = (\<lambda>t. if t < 86400000000 then ''1970-01-01''
                                 else if t < 978393600000000 then ''2001-01-01''
                                 else if t < 1600041600000000 then ''2020-09-13''
                                 else ''2023-11-14''),
             max_timestamp = 253402300799\<rparr>"

definition ctx0 :: ctx where
  "ctx0 = \<lparr>all_images = Map.empty, all_tags = Map.empty, tag_paths = Map.empty,
           db_tags = [''birds/waders/heron'' \<mapsto> False, ''birds/waders'' \<mapsto> True],
           stdin = [], stdout = [], image_files = {}\<rparr>"

definition site0 :: site where
  "site0 = \<lparr>s_ctx = ctx0, s_pages = [], s_all_blog_pages = [], s_feeds = []\<rparr>"

definition photo_post :: "string \<Rightarrow> datetime \<Rightarrow> page" where
  \<comment> \<open>the page of a post with one image, at a path and with a date\<close>
  "photo_post rel t =
     \<lparr>p_relative = rel, p_template = ''post.html'', p_title = ''Untitled'',
      p_arguments = Post \<lparr>e_slug = path_name rel, e_title = ''Untitled'', e_description = None,
                          e_date = ''2020-09-13'', e_datetime = None,
                          e_images = [\<lparr>d_id = 8, d_date = ''2020-09-13'', d_datetime = t,
                                       d_title = None, d_alt = None, d_caption = None,
                                       d_file = ''8.jpg'', d_tags = []\<rparr>],
                          e_tags = [], e_backward = None, e_forward = None, e_comments = []\<rparr>,
      p_date = Some t, p_section = False\<rparr>"

definition renderer0 :: renderer where
  \<comment> \<open>a template engine whose post template fails on the page \<^verbatim>\<open>birds/bad.html\<close>\<close>
  "renderer0 = \<lparr>get_template = (\<lambda>name. None), mkdir_parent = (\<lambda>rel. None),
                template_render = (\<lambda>name page navbar.
                  if p_relative page = ''birds/bad.html'' then Inl TemplateError
                  else Inr (''<h1>'' @ p_title page @ ''</h1>''))\<rparr>"

definition rated_section :: section_config where
  "rated_section = \<lparr>sc_title = ''Best'', sc_slug = ''best'', sc_description = None, sc_icon = None,
                    sc_creators = None, sc_min_rating = Some 4, sc_all_tags = None,
                    sc_no_tags = None, sc_comments = []\<rparr>"

definition birds :: section_config where
  "birds = \<lparr>sc_title = ''Birds'', sc_slug = ''birds'', sc_description = None, sc_icon = None,
            sc_creators = None, sc_min_rating = None, sc_all_tags = Some [''birds''],
            sc_no_tags = None,
            sc_comments = [(''2020-09-12'', [(''ann@example.org'', ''Lovely'')])]\<rparr>"

definition garden :: blog_config where
  "garden = \<lparr>bc_title = ''Garden'', bc_slug = ''garden'', bc_description = None, bc_icon = None,
             bc_comments = [(''roses'', [(''ann@example.org'', ''Lovely'')])]\<rparr>"

definition post :: "string \<Rightarrow> string \<Rightarrow> int list \<Rightarrow> manifest option" where
  "post t s ims = Some \<lparr>m_title = t, m_slug = s, m_description = None, m_images = ims\<rparr>"

definition asking :: ctx where
  "asking = ctx0\<lparr>db_tags := [''birds/waders/heron'' \<mapsto> False, ''birds'' \<mapsto> False],
                   stdin := [''maybe'', ''y'']\<rparr>"

definition two_posts :: "(string \<times> manifest option) list" where
  "two_posts = [(''config.json'', None),
                (''978307200.json'', post ''Old'' ''old'' [7]),
                (''1700000000.json'', post ''New'' ''new'' [8])]"

definition stork :: image where
  "stork = \<lparr>image_id = 9, full_path = Some ''/photos/IMG_0009.jpg'',
            creation_date = 1600000600000000,
            exif = None,
            image_tags = [],
            image_title = None, image_alt = None, image_caption = None\<rparr>"

definition store1 :: store where
  \<comment> \<open>the store of \<open>store0\<close> with a third image, whose persisted date is not a date\<close>
  "store1 = store0\<lparr>search_images := (\<lambda>required excluded. [heron, egret, stork]),
                    db_images := (\<lambda>i. if i = 8 then Some ''2020-09-12''
                                      else if i = 9 then Some ''2020-09-12-8'' else None)\<rparr>"

definition denied_root :: ctx where
  "denied_root = ctx0\<lparr>db_tags := [''birds/waders'' \<mapsto> True, ''birds'' \<mapsto> False]\<rparr>"

section \<open>Properties\<close>

subsection \<open>The effective date of an image\<close>

lemma process_image_miss:
  assumes "process_image st x c = Inr (d, c')" and "all_images c (requested_id x) = None"
  shows "\<exists>im p tags c2. resolve st x = Some im \<and> full_path im = Some p \<and>
     walk_tags (requested_id x) (image_tags im)
       ([], c\<lparr>image_files := insert (str_int (image_id im) @ map lower_char (path_suffix (path_name p)))
                               (image_files c)\<rparr>) = Inr (tags, c2) \<and>
     d = \<lparr>d_id = image_id im,
          d_date = (case db_images st (image_id im) of Some row \<Rightarrow> row
                    | None \<Rightarrow> (case original_date im of Some v \<Rightarrow> exif_date v
                                | None \<Rightarrow> strftime_ymd st (creation_date im))),
          d_datetime = creation_date im, d_title = image_title im, d_alt = image_alt im,
          d_caption = image_caption im,
          d_file = str_int (image_id im) @ map lower_char (path_suffix (path_name p)),
          d_tags = tags\<rparr> \<and>
     c' = c2\<lparr>all_images := (all_images c2)(image_id im \<mapsto> d)\<rparr>"
  using assms
  unfolding process_image_def requested_id_def resolve_def original_date_def
  by (cases x) (auto simp: Let_def split: option.splits sum.splits prod.splits if_splits)

text \<open>
  Claim C6. When \<^verbatim>\<open>process_image\<close> resolves an image (the identifier is not in the cache
  yet), the date of the record it returns is the persisted override of the image when the
  table \<^verbatim>\<open>images\<close> has one; otherwise the date part of the EXIF field
  \<^verbatim>\<open>DateTimeOriginal\<close> when the image has that field; otherwise the formatted creation date.
\<close>

theorem effective_date_precedence:
  assumes "process_image st x c = Inr (d, c')"
    and "all_images c (requested_id x) = None"
    and "resolve st x = Some im"
  shows "d_date d =
     (case db_images st (image_id im) of
        Some row \<Rightarrow> row
      | None \<Rightarrow>
          (case original_date im of
             Some v \<Rightarrow> exif_date v
           | None \<Rightarrow> strftime_ymd st (creation_date im)))"
  using process_image_miss[OF assms(1,2)] assms(3) by auto

theorem effective_date_precedence_witness:
  "all_images ctx0 (requested_id (Inl 7)) = None \<and> resolve store0 (Inl 7) = Some heron \<and>
   (\<exists>d c'. process_image store0 (Inl 7) ctx0 = Inr (d, c') \<and> d_date d = ''2020-09-12'')"
proof -
  have a: "all_images ctx0 (requested_id (Inl 7)) = None" by (simp add: ctx0_def requested_id_def)
  have b: "resolve store0 (Inl 7) = Some heron" by (simp add: resolve_def store0_def)
  obtain d c' where p: "process_image store0 (Inl 7) ctx0 = Inr (d, c')"
    by (simp add: process_image_def store0_def heron_def ctx0_def Let_def walk.simps decide_def register.simps rsplit_head_def)
  have "d_date d = ''2020-09-12''"
    using effective_date_precedence[OF p a b]
    by (simp add: store0_def original_date_def heron_def exif_date_def split_head_def replace_char_def)
  with a b p show ?thesis by blast
qed

subsection \<open>The order of the feed entries\<close>

lemma feed_items_dates:
  "feed_items site ps = Inr items \<Longrightarrow> map f_date items = map date_key ps"
  by (induction ps arbitrary: items) (auto simp: feed_item_of_def split: sum.splits arguments.splits list.splits)

lemma feed_order_descending: "sorted (rev (map date_key (feed_order pages)))"
  by (simp add: feed_order_def rev_map)

lemma feed_order_mset: "mset (feed_order pages) = mset pages"
  by (simp add: feed_order_def)

lemma filter_key_singleton:
  "distinct (map f xs) \<Longrightarrow> k \<in> set xs \<Longrightarrow> filter (\<lambda>x. f k = f x) xs = [k]"
proof (induction xs)
  case Nil then show ?case by simp
next
  case (Cons a xs)
  show ?case
  proof (cases "k = a")
    case True
    have "filter (\<lambda>x. f a = f x) xs = []"
      using Cons.prems(1) by (auto simp: filter_empty_conv)
    with True show ?thesis by simp
  next
    case False
    with Cons.prems have kx: "k \<in> set xs" by auto
    then have "f k \<in> f ` set xs" by simp
    with Cons.prems(1) have "f k \<noteq> f a" by auto
    with kx Cons show ?thesis by simp
  qed
qed

lemma sort_key_perm_distinct:
  assumes "mset xs = mset ys" and "distinct (map f xs)"
  shows "sort_key f xs = sort_key f ys"
proof (rule properties_for_sort_key)
  show "mset (sort_key f ys) = mset xs" using assms(1) by simp
  show "sorted (map f (sort_key f ys))" by simp
  fix k assume "k \<in> set (sort_key f ys)"
  then have kx: "k \<in> set xs" using assms(1) by (metis mset_eq_setD set_sort)
  have "mset (map f (sort_key f ys)) = mset (map f xs)" using assms(1) by simp
  then have d: "distinct (map f (sort_key f ys))"
    using assms(2) by (metis mset_eq_imp_distinct_iff)
  have "k \<in> set (sort_key f ys)" by fact
  then show "filter (\<lambda>x. f k = f x) (sort_key f ys) = filter (\<lambda>x. f k = f x) xs"
    using filter_key_singleton[OF d] filter_key_singleton[OF assms(2) kx] by simp
qed

lemma feed_order_perm:
  assumes "mset pages = mset pages'" and "distinct (map date_key pages)"
  shows "feed_order pages = feed_order pages'"
proof -
  have "mset (rev pages) = mset (rev pages')" using assms(1) by simp
  moreover have "distinct (map date_key (rev pages))" using assms(2) by (metis distinct_rev rev_map)
  ultimately have "sort_key date_key (rev pages) = sort_key date_key (rev pages')"
    by (rule sort_key_perm_distinct)
  then show ?thesis unfolding feed_order_def by simp
qed

lemma date_key_distinct:
  assumes "distinct (map p_date pages)" and "\<not> list_ex (\<lambda>p. p_date p = None) pages"
  shows "distinct (map date_key pages)"
proof -
  have eq: "map p_date pages = map Some (map date_key pages)"
    using assms(2) by (auto simp: date_key_def list_ex_iff split: option.splits)
  from assms(1) have "distinct (map Some (map date_key pages))" by (simp only: eq)
  then show ?thesis by (simp only: distinct_map)
qed

text \<open>
  Claim C7, as the code has it. The entries of a feed are in descending order of the
  pages' dates and are the entries of the pages given. The order of the pages given does
  not matter when their dates are pairwise different; pages with the same date keep the
  order in which they were given, the sort being stable.
\<close>

theorem feed_descending_and_stable:
  "(\<forall>items. render_feeds site pages = Inr items \<longrightarrow>
      sorted (rev (map f_date items)) \<and> mset (map f_date items) = mset (map date_key pages)) \<and>
   (mset pages = mset pages' \<and> distinct (map p_date pages) \<longrightarrow>
      render_feeds site pages = render_feeds site pages') \<and>
   (\<forall>k. filter (\<lambda>p. date_key p = k) (feed_order pages) = filter (\<lambda>p. date_key p = k) pages)"
proof (intro conjI allI impI)
  fix items assume a: "render_feeds site pages = Inr items"
  then have "feed_items site (feed_order pages) = Inr items"
    by (simp add: render_feeds_def split: if_splits)
  then have m: "map f_date items = map date_key (feed_order pages)" by (rule feed_items_dates)
  show "sorted (rev (map f_date items))" using m feed_order_descending by simp
  show "mset (map f_date items) = mset (map date_key pages)"
    using m feed_order_mset[of pages] by (metis mset_map)
next
  assume a: "mset pages = mset pages' \<and> distinct (map p_date pages)"
  then have s: "set pages = set pages'" and l: "length pages = length pages'"
    by (auto dest: mset_eq_setD mset_eq_length)
  have e: "list_ex (\<lambda>p. p_date p = None) pages = list_ex (\<lambda>p. p_date p = None) pages'"
    using s by (simp add: list_ex_iff)
  show "render_feeds site pages = render_feeds site pages'"
  proof (cases "list_ex (\<lambda>p. p_date p = None) pages")
    case True
    with e l show ?thesis by (simp add: render_feeds_def)
  next
    case False
    with a have "distinct (map date_key pages)" by (simp add: date_key_distinct)
    with a have "feed_order pages = feed_order pages'" by (simp add: feed_order_perm)
    with False e show ?thesis by (simp add: render_feeds_def)
  qed
next
  fix k
  have "filter (\<lambda>p. date_key p = k) (feed_order pages) = rev (filter (\<lambda>p. date_key p = k) (sort_key date_key (rev pages)))"
    by (simp add: feed_order_def rev_filter)
  also have "\<dots> = rev (filter (\<lambda>p. date_key p = k) (rev pages))"
    by (simp add: sort_key_stable)
  also have "\<dots> = filter (\<lambda>p. date_key p = k) pages" by (simp add: rev_filter)
  finally show "filter (\<lambda>p. date_key p = k) (feed_order pages) = filter (\<lambda>p. date_key p = k) pages" .
qed

theorem feed_descending_and_stable_witness:
  "mset [photo_post ''birds/a.html'' 5, photo_post ''birds/b.html'' 9] =
   mset [photo_post ''birds/b.html'' 9, photo_post ''birds/a.html'' 5] \<and>
   distinct (map p_date [photo_post ''birds/a.html'' 5, photo_post ''birds/b.html'' 9]) \<and>
   render_feeds ''example.org'' [photo_post ''birds/a.html'' 5, photo_post ''birds/b.html'' 9] =
   render_feeds ''example.org'' [photo_post ''birds/b.html'' 9, photo_post ''birds/a.html'' 5] \<and>
   (\<exists>items. render_feeds ''example.org'' [photo_post ''birds/a.html'' 5, photo_post ''birds/b.html'' 9]
       = Inr items \<and> map f_date items = [9, 5] \<and> sorted (rev (map f_date items)))"
proof -
  let ?ps = "[photo_post ''birds/a.html'' 5, photo_post ''birds/b.html'' 9]"
  let ?qs = "[photo_post ''birds/b.html'' 9, photo_post ''birds/a.html'' 5]"
  have a: "mset ?ps = mset ?qs" by simp
  have b: "distinct (map p_date ?ps)" by (simp add: photo_post_def)
  obtain items where i: "render_feeds ''example.org'' ?ps = Inr items" and j: "map f_date items = [9, 5]"
    by (simp add: render_feeds_def feed_order_def date_key_def photo_post_def feed_item_of_def)
  note t = feed_descending_and_stable[of "''example.org''" ?ps ?qs]
  from t a b have r: "render_feeds ''example.org'' ?ps = render_feeds ''example.org'' ?qs"
    by (elim conjE) (rule mp, assumption, intro conjI)
  from t have "render_feeds ''example.org'' ?ps = Inr items \<longrightarrow> sorted (rev (map f_date items))"
    by (elim conjE allE[of _ items]) (rule impI, drule (1) mp, erule conjunct1)
  with i have s: "sorted (rev (map f_date items))" by (rule rev_mp)
  show ?thesis by (intro conjI exI[of _ items]) (fact a b r i j s)+
qed

text \<open>
  Two posts with the same date, given in either order, come out in the order given:
  reordering the input does change the feed.
\<close>

theorem feed_ties_counterexample:
  "mset [photo_post ''birds/2020-09-13.html'' 5, photo_post ''birds/2020-09-13-8.html'' 5] =
   mset [photo_post ''birds/2020-09-13-8.html'' 5, photo_post ''birds/2020-09-13.html'' 5] \<and>
   map_sum id (map f_url)
     (render_feeds ''example.org''
        [photo_post ''birds/2020-09-13.html'' 5, photo_post ''birds/2020-09-13-8.html'' 5]) =
     Inr [''https://example.org/birds/2020-09-13.html'', ''https://example.org/birds/2020-09-13-8.html''] \<and>
   map_sum id (map f_url)
     (render_feeds ''example.org''
        [photo_post ''birds/2020-09-13-8.html'' 5, photo_post ''birds/2020-09-13.html'' 5]) =
     Inr [''https://example.org/birds/2020-09-13-8.html'', ''https://example.org/birds/2020-09-13.html'']"
  by (simp add: render_feeds_def feed_order_def date_key_def photo_post_def feed_item_of_def)

subsection \<open>A page whose template fails\<close>

lemma render_pages_append:
  "render_pages r navbar (xs @ ys) out =
     (case render_pages r navbar xs out of Inl e \<Rightarrow> Inl e | Inr out' \<Rightarrow> render_pages r navbar ys out')"
  by (induction xs arbitrary: out) (auto split: sum.splits)

text \<open>
  Claim C8. When the template of a page loads, its directory is made and rendering the page
  through the template raises an exception, the loop over the pages does not stop: the
  failure is written to standard output, the file of the page stays empty, and the pages
  after it are rendered from that state on.
\<close>

theorem render_failure_is_local:
  assumes "get_template r (p_template page) = None"
    and "mkdir_parent r (p_relative page) = None"
    and "template_render r (p_template page) page navbar = Inl e"
    and "is_exception e"
  shows "render_pages r navbar (before @ page # rest) out =
     (case render_pages r navbar before out of
        Inl x \<Rightarrow> Inl x
      | Inr out' \<Rightarrow>
          render_pages r navbar rest
            (out'\<lparr>out_files := out_files out' @ [(p_relative page, [])],
                  out_stdout := out_stdout out' @
                    [''building '' @ p_relative page @ '' failed: '' @ error_name e]\<rparr>))"
  using assms by (simp add: render_pages_append render_def split: sum.splits)

theorem render_failure_is_local_witness:
  "get_template renderer0 (p_template (photo_post ''birds/bad.html'' 5)) = None \<and>
   mkdir_parent renderer0 (p_relative (photo_post ''birds/bad.html'' 5)) = None \<and>
   template_render renderer0 (p_template (photo_post ''birds/bad.html'' 5))
     (photo_post ''birds/bad.html'' 5) [] = Inl TemplateError \<and>
   is_exception TemplateError \<and>
   render_pages renderer0 []
     ([photo_post ''birds/a.html'' 4] @ photo_post ''birds/bad.html'' 5 # [photo_post ''birds/c.html'' 6])
     \<lparr>out_files = [], out_stdout = []\<rparr> =
   Inr \<lparr>out_files = [(''birds/a.html'', ''<h1>Untitled</h1>''), (''birds/bad.html'', []),
                     (''birds/c.html'', ''<h1>Untitled</h1>'')],
        out_stdout = [''building birds/bad.html failed: TemplateError'']\<rparr>"
proof -
  have a: "get_template renderer0 (p_template (photo_post ''birds/bad.html'' 5)) = None"
    by (simp add: renderer0_def)
  have b: "mkdir_parent renderer0 (p_relative (photo_post ''birds/bad.html'' 5)) = None"
    by (simp add: renderer0_def)
  have c: "template_render renderer0 (p_template (photo_post ''birds/bad.html'' 5))
     (photo_post ''birds/bad.html'' 5) [] = Inl TemplateError"
    by (simp add: renderer0_def photo_post_def)
  have d: "is_exception TemplateError" by (simp add: is_exception_def)
  show ?thesis
    using render_failure_is_local[OF a b c d, of "[photo_post ''birds/a.html'' 4]"
        "[photo_post ''birds/c.html'' 6]" "\<lparr>out_files = [], out_stdout = []\<rparr>"] a b c d
    by (simp add: render_def renderer0_def photo_post_def error_name_def)
qed

subsection \<open>A section that asks for a minimum rating\<close>

lemma build_sections_append:
  "build_sections domain st (xs @ ys) s =
     (case build_sections domain st xs s of Inl e \<Rightarrow> Inl e | Inr s' \<Rightarrow> build_sections domain st ys s')"
  by (induction xs arbitrary: s) (auto split: sum.splits)

lemma section_not_blog: "startswith name ''section-'' \<Longrightarrow> \<not> startswith name ''blog-''"
proof
  assume a: "startswith name ''section-''" and b: "startswith name ''blog-''"
  from a have "name = ''section-'' @ drop (length ''section-'') name"
    unfolding startswith_def by (metis append_take_drop_id)
  then obtain rest where "name = ''section-'' @ rest" ..
  with b show False by (simp add: startswith_def)
qed

lemma build_node_min_rating:
  assumes "startswith name ''section-''" and "sc_min_rating cfg \<noteq> None"
  shows "build_node domain st (name, File (Some cfg)) s = Inl NotImplementedError"
  using assms section_not_blog[OF assms(1)]
  by (simp add: build_node_def build_section_def)

text \<open>
  Claim C9. A configuration directory that holds a section file whose minimum rating is set
  never builds: the loop over the directory ends in an error, and when the paths before
  the section file build, that error is \<^verbatim>\<open>NotImplementedError\<close>, raised before the
  photo store is searched.
\<close>

theorem min_rating_aborts_build:
  assumes "startswith name ''section-''" and "sc_min_rating cfg \<noteq> None"
  shows "(\<exists>e. build_sections domain st (before @ (name, File (Some cfg)) # rest) s = Inl e) \<and>
         (\<forall>s'. build_sections domain st before s = Inr s' \<longrightarrow>
            build_sections domain st (before @ (name, File (Some cfg)) # rest) s = Inl NotImplementedError)"
  using build_node_min_rating[OF assms]
  by (auto simp: build_sections_append split: sum.splits)

theorem min_rating_aborts_build_witness:
  "startswith ''section-best.json'' ''section-'' \<and> sc_min_rating rated_section \<noteq> None \<and>
   build_sections ''example.org'' store0
     ([(''users.json'', File None)] @ (''section-best.json'', File (Some rated_section)) # []) site0
     = Inl NotImplementedError"
proof -
  have a: "startswith ''section-best.json'' ''section-''" by (simp add: startswith_def)
  have b: "sc_min_rating rated_section \<noteq> None" by (simp add: rated_section_def)
  have c: "build_sections ''example.org'' store0 [(''users.json'', File None)] site0 = Inr site0"
    by (simp add: build_node_def startswith_def)
  from min_rating_aborts_build[OF a b, of "''example.org''" store0 "[(''users.json'', File None)]" "[]" site0]
  have "build_sections ''example.org'' store0 [(''users.json'', File None)] site0 = Inr site0 \<longrightarrow>
     build_sections ''example.org'' store0
       ([(''users.json'', File None)] @ (''section-best.json'', File (Some rated_section)) # []) site0
       = Inl NotImplementedError"
    by (elim conjE allE[of _ site0])
  with c have d: "build_sections ''example.org'' store0
       ([(''users.json'', File None)] @ (''section-best.json'', File (Some rated_section)) # []) site0
       = Inl NotImplementedError" by (rule rev_mp)
  show ?thesis by (intro conjI) (fact a b d)+
qed

subsection \<open>The chain of backward and forward links\<close>

lemma set_forward_Nil [simp]: "set_forward s [] = []"
  by (simp add: set_forward_def)

lemma set_forward_single [simp]: "set_forward s [e] = [e\<lparr>e_forward := Some s\<rparr>]"
  by (simp add: set_forward_def)

lemma set_forward_Cons [simp]: "es \<noteq> [] \<Longrightarrow> set_forward s (e # es) = e # set_forward s es"
  by (cases es) (simp_all add: set_forward_def)

lemma set_forward_not_Nil [simp]: "(set_forward s es = []) = (es = [])"
  by (simp add: set_forward_def)

lemma set_forward_length [simp]: "length (set_forward s es) = length es"
  by (simp add: set_forward_def)

lemma set_forward_slugs [simp]: "map e_slug (set_forward s es) = map e_slug es"
  by (induction es rule: chained.induct[of _ None]) simp_all

lemma chained_snoc:
  assumes "chained prev es"
    and "e_backward e = (if es = [] then prev else Some (e_slug (last es)))"
    and "e_forward e = None"
  shows "chained prev (set_forward (e_slug e) es @ [e])"
  using assms
proof (induction prev es rule: chained.induct)
  case (1 prev)
  then show ?case by simp
next
  case (2 prev x)
  then show ?case by simp
next
  case (3 prev x y zs)
  then have "chained (Some (e_slug x)) (set_forward (e_slug e) (y # zs) @ [e])" by simp
  moreover obtain y' zs' where yz: "set_forward (e_slug e) (y # zs) = y' # zs'" and "e_slug y' = e_slug y"
    by (cases zs) simp_all
  ultimately show ?case using 3 by simp
qed

lemma chained_ends:
  "chained prev es \<Longrightarrow> es \<noteq> [] \<Longrightarrow> e_backward (hd es) = prev \<and> e_forward (last es) = None"
  by (induction prev es rule: chained.induct) simp_all

lemma chained_nth:
  "chained prev es \<Longrightarrow> Suc i < length es \<Longrightarrow>
     e_forward (es ! i) = Some (e_slug (es ! Suc i)) \<and> e_backward (es ! Suc i) = Some (e_slug (es ! i))"
proof (induction prev es arbitrary: i rule: chained.induct)
  case (3 prev x y zs)
  show ?case
  proof (cases i)
    case 0
    with 3 show ?thesis by (cases zs) simp_all
  next
    case (Suc j)
    with 3 show ?thesis by simp
  qed
qed simp_all

lemma linked_initial: "linked (initial_state cs)"
  by (simp add: linked_def initial_state_def last_slug_def)

lemma section_step_shape:
  "\<exists>e. ls_entries (section_step cfg d ls) =
          set_forward (section_slug (ls_dates ls) d) (ls_entries ls) @ [e] \<and>
        ls_previous (section_step cfg d ls) = Some (section_slug (ls_dates ls) d) \<and>
        e_slug e = section_slug (ls_dates ls) d \<and> e_backward e = ls_previous ls \<and>
        e_forward e = None \<and> e_images e = [d] \<and> e_date e = d_date d \<and>
        e_comments e = fst (pop (rsplit_head (CHR ''.'') (section_slug (ls_dates ls) d)) (ls_comments ls))"
  by (simp add: section_step_def Let_def split: prod.splits)

lemma blog_post_shape:
  assumes "blog_post st stem m (c, ls) = Inr (c', ls')"
  shows "\<exists>e. ls_entries ls' = set_forward (m_slug m @ ''.html'') (ls_entries ls) @ [e] \<and>
        ls_previous ls' = Some (m_slug m @ ''.html'') \<and>
        e_slug e = m_slug m @ ''.html'' \<and> e_backward e = ls_previous ls \<and>
        e_forward e = None \<and>
        e_comments e = fst (pop (m_slug m @ ''.html'') (ls_comments ls))"
  using assms by (auto simp: blog_post_def Let_def split: prod.splits sum.splits)

lemma linked_append:
  assumes "linked ls"
    and "ls_entries ls' = set_forward slug (ls_entries ls) @ [e]"
    and "ls_previous ls' = Some slug"
    and "e_slug e = slug" and "e_backward e = ls_previous ls" and "e_forward e = None"
  shows "linked ls'"
proof -
  from assms(1,4,5,6) have "chained None (set_forward (e_slug e) (ls_entries ls) @ [e])"
    by (intro chained_snoc) (simp_all add: linked_def last_slug_def)
  with assms(2,3,4) show ?thesis by (simp add: linked_def last_slug_def)
qed

lemma linked_section_step: "linked ls \<Longrightarrow> linked (section_step cfg d ls)"
  using section_step_shape[of cfg d ls] by (auto intro: linked_append)

lemma linked_blog_post:
  assumes "linked ls" and "blog_post st stem m (c, ls) = Inr (c', ls')"
  shows "linked ls'"
  using blog_post_shape[OF assms(2)] assms(1) by (auto intro: linked_append)

lemma section_loop_invariant:
  assumes "\<And>d ls. P ls \<Longrightarrow> P (section_step cfg d ls)"
  shows "P ls \<Longrightarrow> section_loop st cfg ims (c, ls) = Inr (c', ls') \<Longrightarrow> P ls'"
proof (induction ims arbitrary: c ls)
  case Nil
  then show ?case by simp
next
  case (Cons im ims)
  show ?case
  proof (cases "full_path im = None")
    case True
    with Cons show ?thesis by simp
  next
    case False
    with Cons.prems(2) obtain d c1 where
      "process_image st (Inr im) c = Inr (d, c1)"
      "section_loop st cfg ims (c1, section_step cfg d ls) = Inr (c', ls')"
      by (auto split: sum.splits)
    with Cons.IH[of "section_step cfg d ls" c1] assms Cons.prems(1) show ?thesis by simp
  qed
qed

lemma blog_loop_invariant:
  assumes "\<And>stem m c ls c' ls'. P ls \<Longrightarrow> blog_post st stem m (c, ls) = Inr (c', ls') \<Longrightarrow> P ls'"
  shows "P ls \<Longrightarrow> blog_loop st files (c, ls) = Inr (c', ls') \<Longrightarrow> P ls'"
proof (induction files arbitrary: c ls)
  case Nil
  then show ?case by simp
next
  case (Cons f files)
  obtain name content where f: "f = (name, content)" by (cases f)
  show ?case
  proof (cases "isnumeric (path_stem name)")
    case False
    with Cons f show ?thesis by simp
  next
    case True
    with Cons.prems(2) f obtain m c1 ls1 where
      "blog_post st (path_stem name) m (c, ls) = Inr (c1, ls1)"
      "blog_loop st files (c1, ls1) = Inr (c', ls')"
      by (auto split: sum.splits option.splits)
    with Cons.IH[of ls1 c1] assms[of ls] Cons.prems(1) show ?thesis by blast
  qed
qed

text \<open>
  The entries of a blog or of a filter-driven section, when there are any, form one chain
  in the order of the list: the first entry has no backward link, the last entry has no
  forward link, and for every two neighbours the forward link of the earlier one is the
  slug of the later one and the backward link of the later one is the slug of the earlier
  one.
\<close>

theorem links_form_chain:
  assumes "blog_entries st bcfg files c = Inr (c', ls) \<or> section_entries st scfg c = Inr (c', ls)"
    and "ls_entries ls \<noteq> []"
  shows "e_backward (hd (ls_entries ls)) = None \<and>
         e_forward (last (ls_entries ls)) = None \<and>
         (\<forall>i. Suc i < length (ls_entries ls) \<longrightarrow>
            e_forward (ls_entries ls ! i) = Some (e_slug (ls_entries ls ! Suc i)) \<and>
            e_backward (ls_entries ls ! Suc i) = Some (e_slug (ls_entries ls ! i)))"
proof -
  have "linked ls"
    using assms(1)
  proof
    assume "blog_entries st bcfg files c = Inr (c', ls)"
    then show ?thesis
      unfolding blog_entries_def
      by (rule blog_loop_invariant[where P = linked, rotated 2]) (auto intro: linked_blog_post linked_initial)
  next
    assume "section_entries st scfg c = Inr (c', ls)"
    then show ?thesis
      unfolding section_entries_def
      by (rule section_loop_invariant[where P = linked, rotated 2]) (auto intro: linked_section_step linked_initial)
  qed
  then have ch: "chained None (ls_entries ls)" by (simp add: linked_def)
  from chained_ends[OF ch assms(2)] chained_nth[OF ch] show ?thesis by simp
qed

theorem links_form_chain_witness:
  "\<exists>c' ls. section_entries store0 birds ctx0 = Inr (c', ls) \<and> ls_entries ls \<noteq> [] \<and>
     length (ls_entries ls) = 2 \<and>
     e_backward (hd (ls_entries ls)) = None \<and> e_forward (last (ls_entries ls)) = None \<and>
     e_forward (ls_entries ls ! 0) = Some (e_slug (ls_entries ls ! Suc 0)) \<and>
     e_backward (ls_entries ls ! Suc 0) = Some (e_slug (ls_entries ls ! 0))"
proof -
  have r: "\<not> isl (section_entries store0 birds ctx0)" by code_simp
  have n: "length (ls_entries (snd (projr (section_entries store0 birds ctx0)))) = 2" by code_simp
  from r obtain c' ls where run: "section_entries store0 birds ctx0 = Inr (c', ls)"
    by (cases "section_entries store0 birds ctx0") auto
  with n have len: "length (ls_entries ls) = 2" by simp
  then have ne: "ls_entries ls \<noteq> []" by auto
  from links_form_chain[OF disjI2[OF run] ne] len
  have "e_backward (hd (ls_entries ls)) = None \<and> e_forward (last (ls_entries ls)) = None \<and>
     e_forward (ls_entries ls ! 0) = Some (e_slug (ls_entries ls ! Suc 0)) \<and>
     e_backward (ls_entries ls ! Suc 0) = Some (e_slug (ls_entries ls ! 0))" by simp
  with run ne len show ?thesis by blast
qed

subsection \<open>The slugs of a section\<close>

lemma of_char_digit: "d < 10 \<Longrightarrow> (of_char (digit_char d) :: nat) = 48 + d"
  by (simp add: digit_char_def)

lemma str_nat_decimal: "list_all is_decimal (str_nat n) \<and> str_nat n \<noteq> []"
proof (induction n rule: str_nat.induct)
  case (1 n)
  show ?case
  proof (cases "n < 10")
    case True
    then show ?thesis by (subst str_nat.simps, subst str_nat.simps) (simp add: is_decimal_def of_char_digit)
  next
    case False
    then have "list_all is_decimal (str_nat (n div 10))" using 1 by simp
    moreover have "is_decimal (digit_char (n mod 10))" by (simp add: is_decimal_def of_char_digit)
    ultimately show ?thesis using False by (subst str_nat.simps, subst str_nat.simps) simp
  qed
qed

lemma str_nat_value: "foldl (\<lambda>a c. 10 * a + (int (of_char c) - 48)) 0 (str_nat n) = int n"
proof (induction n rule: str_nat.induct)
  case (1 n)
  show ?case
  proof (cases "n < 10")
    case True
    then show ?thesis by (subst str_nat.simps) (simp add: of_char_digit)
  next
    case False
    then have "foldl (\<lambda>a c. 10 * a + (int (of_char c) - 48)) 0 (str_nat (n div 10)) = int (n div 10)"
      using 1 by simp
    then show ?thesis using False
      by (subst str_nat.simps) (simp add: of_char_digit zdiv_int zmod_int)
  qed
qed

lemma int_of_str_str_nat: "int_of_str (str_nat n) = Inr (int n)"
  by (simp add: int_of_str_def str_nat_decimal str_nat_value)

lemma str_nat_inj: "str_nat a = str_nat b \<Longrightarrow> a = b"
proof -
  assume "str_nat a = str_nat b"
  then have "int_of_str (str_nat a) = int_of_str (str_nat b)" by (rule arg_cong)
  then show "a = b" by (simp only: int_of_str_str_nat sum.inject of_nat_eq_iff)
qed

lemma str_nat_no_minus: "str_nat n \<noteq> CHR ''-'' # s"
proof
  assume "str_nat n = CHR ''-'' # s"
  with str_nat_decimal[of n] have "is_decimal (CHR ''-'')" by simp
  then show False by (simp add: is_decimal_def)
qed

lemma str_int_inj:
  assumes "str_int a = str_int b"
  shows "a = b"
proof (cases "a < 0")
  case True
  show ?thesis
  proof (cases "b < 0")
    case True
    with \<open>a < 0\<close> assms have "str_nat (nat (- a)) = str_nat (nat (- b))" by (simp add: str_int_def)
    then have "nat (- a) = nat (- b)" by (rule str_nat_inj)
    with True \<open>a < 0\<close> show ?thesis by simp
  next
    case False
    with True assms have "str_nat (nat b) = CHR ''-'' # str_nat (nat (- a))" by (simp add: str_int_def)
    with str_nat_no_minus show ?thesis by blast
  qed
next
  case False
  show ?thesis
  proof (cases "b < 0")
    case True
    with False assms have "str_nat (nat a) = CHR ''-'' # str_nat (nat (- b))" by (simp add: str_int_def)
    with str_nat_no_minus show ?thesis by blast
  next
    case nb: False
    with False assms have "str_nat (nat a) = str_nat (nat b)" by (simp add: str_int_def)
    then have "nat a = nat b" by (rule str_nat_inj)
    with False nb show ?thesis by simp
  qed
qed

lemma nth_set_forward:
  "k < length es \<Longrightarrow>
     e_slug (set_forward s es ! k) = e_slug (es ! k) \<and>
     e_date (set_forward s es ! k) = e_date (es ! k) \<and>
     e_images (set_forward s es ! k) = e_images (es ! k)"
  by (cases "k = length es - 1") (auto simp: set_forward_def last_conv_nth)

lemma set_forward_dates [simp]: "map e_date (set_forward s es) = map e_date es"
  by (rule nth_equalityI) (simp_all add: nth_set_forward)

lemma set_forward_images [simp]: "map e_images (set_forward s es) = map e_images es"
  by (rule nth_equalityI) (simp_all add: nth_set_forward)

lemma set_forward_date_set: "e_date ` set (set_forward s es) = e_date ` set es"
proof -
  have "e_date ` set (set_forward s es) = set (map e_date (set_forward s es))" by (simp only: set_map)
  also have "\<dots> = set (map e_date es)" by (simp only: set_forward_dates)
  finally show ?thesis by simp
qed

lemma dated_initial: "dated (initial_state cs)"
  by (simp add: dated_def initial_state_def)

lemma section_step_dates:
  "ls_dates (section_step cfg d ls) = insert (d_date d) (ls_dates ls)"
  by (auto simp: section_step_def Let_def split: prod.splits)

lemma dated_section_step:
  assumes "dated ls"
  shows "dated (section_step cfg d ls)"
proof -
  let ?es = "ls_entries ls"
  let ?n = "length ?es"
  let ?long = "d_date d @ ''-'' @ str_int (d_id d) @ ''.html''"
  obtain e where
    es': "ls_entries (section_step cfg d ls) = set_forward (section_slug (ls_dates ls) d) ?es @ [e]"
    and slug: "e_slug e = section_slug (ls_dates ls) d"
    and img: "e_images e = [d]" and dt: "e_date e = d_date d"
    using section_step_shape[of cfg d ls] by blast
  let ?es1 = "set_forward (section_slug (ls_dates ls) d) ?es"
  let ?es' = "?es1 @ [e]"
  have old: "\<And>k. k < ?n \<Longrightarrow> e_slug (?es' ! k) = e_slug (?es ! k) \<and>
        e_date (?es' ! k) = e_date (?es ! k) \<and> e_images (?es' ! k) = e_images (?es ! k)"
    by (simp add: nth_append nth_set_forward)
  have new: "?es' ! ?n = e" by (simp add: nth_append)
  have in_dates: "\<And>k. k < ?n \<Longrightarrow> e_date (?es ! k) \<in> ls_dates ls"
    using assms by (simp add: dated_def)
  have a: "\<forall>x \<in> set ?es'. e_date x \<in> insert (d_date d) (ls_dates ls)"
  proof
    fix x assume "x \<in> set ?es'"
    then have "x = e \<or> x \<in> set ?es1" by auto
    then have "e_date x = d_date d \<or> e_date x \<in> e_date ` set ?es1" using dt by auto
    then have "e_date x = d_date d \<or> e_date x \<in> e_date ` set ?es"
      by (simp only: set_forward_date_set)
    then show "e_date x \<in> insert (d_date d) (ls_dates ls)"
      using assms by (auto simp: dated_def)
  qed
  have b: "\<forall>j < length ?es'. \<exists>d'.
          e_images (?es' ! j) = [d'] \<and> e_date (?es' ! j) = d_date d' \<and>
          (e_slug (?es' ! j) = d_date d' @ ''.html'' \<or>
           e_slug (?es' ! j) = d_date d' @ ''-'' @ str_int (d_id d') @ ''.html'') \<and>
          (\<forall>i < j. e_date (?es' ! i) = e_date (?es' ! j) \<longrightarrow>
             e_slug (?es' ! j) = d_date d' @ ''-'' @ str_int (d_id d') @ ''.html'')"
  proof (intro allI impI)
    fix j assume "j < length ?es'"
    then consider "j < ?n" | "j = ?n" by fastforce
    then show "\<exists>d'. e_images (?es' ! j) = [d'] \<and> e_date (?es' ! j) = d_date d' \<and>
          (e_slug (?es' ! j) = d_date d' @ ''.html'' \<or>
           e_slug (?es' ! j) = d_date d' @ ''-'' @ str_int (d_id d') @ ''.html'') \<and>
          (\<forall>i < j. e_date (?es' ! i) = e_date (?es' ! j) \<longrightarrow>
             e_slug (?es' ! j) = d_date d' @ ''-'' @ str_int (d_id d') @ ''.html'')"
    proof cases
      case 1
      with assms obtain d' where d': "e_images (?es ! j) = [d']" "e_date (?es ! j) = d_date d'"
          "e_slug (?es ! j) = d_date d' @ ''.html'' \<or>
           e_slug (?es ! j) = d_date d' @ ''-'' @ str_int (d_id d') @ ''.html''"
          "\<forall>i < j. e_date (?es ! i) = e_date (?es ! j) \<longrightarrow>
             e_slug (?es ! j) = d_date d' @ ''-'' @ str_int (d_id d') @ ''.html''"
        unfolding dated_def by blast
      have "\<forall>i < j. e_date (?es' ! i) = e_date (?es' ! j) \<longrightarrow>
             e_slug (?es' ! j) = d_date d' @ ''-'' @ str_int (d_id d') @ ''.html''"
      proof (intro allI impI)
        fix i assume "i < j" and "e_date (?es' ! i) = e_date (?es' ! j)"
        with 1 old[of i] old[of j] d'(4) show "e_slug (?es' ! j) = d_date d' @ ''-'' @ str_int (d_id d') @ ''.html''"
          by simp
      qed
      with d'(1,2,3) old[OF 1] show ?thesis by auto
    next
      case 2
      have "\<forall>i < ?n. e_date (?es' ! i) = e_date e \<longrightarrow> e_slug e = ?long"
      proof (intro allI impI)
        fix i assume "i < ?n" and "e_date (?es' ! i) = e_date e"
        with old[of i] in_dates[of i] dt have "d_date d \<in> ls_dates ls" by simp
        then show "e_slug e = ?long" by (simp add: slug section_slug_def)
      qed
      moreover have "e_slug e = d_date d @ ''.html'' \<or> e_slug e = ?long"
        by (simp add: slug section_slug_def)
      ultimately show ?thesis using 2 new img dt by auto
    qed
  qed
  from a b show ?thesis unfolding dated_def es' section_step_dates by blast
qed

lemma same_date_slugs:
  assumes "dated ls" and "i < j" and "j < length (ls_entries ls)"
    and "e_date (ls_entries ls ! i) = e_date (ls_entries ls ! j)"
  shows "\<exists>di dj. e_images (ls_entries ls ! i) = [di] \<and> e_images (ls_entries ls ! j) = [dj] \<and>
     e_slug (ls_entries ls ! j) = e_date (ls_entries ls ! j) @ ''-'' @ str_int (d_id dj) @ ''.html'' \<and>
     (d_id di \<noteq> d_id dj \<longrightarrow> e_slug (ls_entries ls ! i) \<noteq> e_slug (ls_entries ls ! j))"
proof -
  let ?es = "ls_entries ls"
  from assms(1,3) obtain dj where dj: "e_images (?es ! j) = [dj]" "e_date (?es ! j) = d_date dj"
      "\<forall>i < j. e_date (?es ! i) = e_date (?es ! j) \<longrightarrow>
             e_slug (?es ! j) = d_date dj @ ''-'' @ str_int (d_id dj) @ ''.html''"
    unfolding dated_def by blast
  from assms(2,3) have "i < length ?es" by simp
  with assms(1) obtain di where di: "e_images (?es ! i) = [di]" "e_date (?es ! i) = d_date di"
      "e_slug (?es ! i) = d_date di @ ''.html'' \<or>
           e_slug (?es ! i) = d_date di @ ''-'' @ str_int (d_id di) @ ''.html''"
    unfolding dated_def by blast
  from dj(3) assms(2,4) have sj: "e_slug (?es ! j) = d_date dj @ ''-'' @ str_int (d_id dj) @ ''.html''"
    by simp
  from di(2) dj(2) assms(4) have same: "d_date di = d_date dj" by simp
  have "d_id di \<noteq> d_id dj \<longrightarrow> e_slug (?es ! i) \<noteq> e_slug (?es ! j)"
    using di(3) sj same by (auto dest: str_int_inj)
  with di(1) dj(1,2) sj show ?thesis by simp
qed

lemma blog_loop_slugs:
  "blog_loop st files (c, ls) = Inr (c', ls') \<Longrightarrow>
     map e_slug (ls_entries ls') =
     map e_slug (ls_entries ls) @ map (\<lambda>m. m_slug m @ ''.html'') (numeric_posts files)"
proof (induction files arbitrary: c ls)
  case Nil
  then show ?case by (simp add: numeric_posts_def)
next
  case (Cons f files)
  obtain name content where f: "f = (name, content)" by (cases f)
  show ?case
  proof (cases "isnumeric (path_stem name)")
    case False
    with Cons f show ?thesis by (simp add: numeric_posts_def split: option.splits)
  next
    case True
    with Cons.prems f obtain m c1 ls1 where
      m: "content = Some m"
      and p: "blog_post st (path_stem name) m (c, ls) = Inr (c1, ls1)"
      and r: "blog_loop st files (c1, ls1) = Inr (c', ls')"
      by (auto split: sum.splits option.splits)
    from blog_post_shape[OF p] have "map e_slug (ls_entries ls1) = map e_slug (ls_entries ls) @ [m_slug m @ ''.html'']"
      by auto
    with Cons.IH[OF r] f m True show ?thesis by (simp add: numeric_posts_def)
  qed
qed

lemma pair_slugs:
  assumes "dated ls" and "i < j" and "j < length (ls_entries ls)"
  shows "\<exists>di dj. e_images (ls_entries ls ! i) = [di] \<and> e_images (ls_entries ls ! j) = [dj] \<and>
     (e_date (ls_entries ls ! i) = e_date (ls_entries ls ! j) \<longrightarrow>
        e_slug (ls_entries ls ! j) = e_date (ls_entries ls ! j) @ ''-'' @ str_int (d_id dj) @ ''.html'') \<and>
     (length (e_date (ls_entries ls ! i)) = length (e_date (ls_entries ls ! j)) \<and> d_id di \<noteq> d_id dj \<longrightarrow>
        e_slug (ls_entries ls ! i) \<noteq> e_slug (ls_entries ls ! j))"
proof -
  let ?es = "ls_entries ls"
  from assms(1,3) obtain dj where dj: "e_images (?es ! j) = [dj]" "e_date (?es ! j) = d_date dj"
      "e_slug (?es ! j) = d_date dj @ ''.html'' \<or>
           e_slug (?es ! j) = d_date dj @ ''-'' @ str_int (d_id dj) @ ''.html''"
      "\<forall>i < j. e_date (?es ! i) = e_date (?es ! j) \<longrightarrow>
             e_slug (?es ! j) = d_date dj @ ''-'' @ str_int (d_id dj) @ ''.html''"
    unfolding dated_def by blast
  from assms(2,3) have "i < length ?es" by simp
  with assms(1) obtain di where di: "e_images (?es ! i) = [di]" "e_date (?es ! i) = d_date di"
      "e_slug (?es ! i) = d_date di @ ''.html'' \<or>
           e_slug (?es ! i) = d_date di @ ''-'' @ str_int (d_id di) @ ''.html''"
    unfolding dated_def by blast
  have same: "e_date (?es ! i) = e_date (?es ! j) \<longrightarrow>
        e_slug (?es ! j) = e_date (?es ! j) @ ''-'' @ str_int (d_id dj) @ ''.html''"
    using dj(2,4) assms(2) by simp
  have ti: "take (length (d_date di)) (e_slug (?es ! i)) = d_date di" using di(3) by auto
  have tj: "take (length (d_date dj)) (e_slug (?es ! j)) = d_date dj" using dj(3) by auto
  have "e_slug (?es ! i) \<noteq> e_slug (?es ! j)"
    if len: "length (e_date (?es ! i)) = length (e_date (?es ! j))" and ids: "d_id di \<noteq> d_id dj"
  proof
    assume eq: "e_slug (?es ! i) = e_slug (?es ! j)"
    from len di(2) dj(2) have l: "length (d_date di) = length (d_date dj)" by metis
    have "d_date di = take (length (d_date di)) (e_slug (?es ! i))" by (rule ti[symmetric])
    also have "\<dots> = take (length (d_date dj)) (e_slug (?es ! j))" by (simp only: l eq)
    also have "\<dots> = d_date dj" by (rule tj)
    finally have d: "d_date di = d_date dj" .
    have "e_date (?es ! i) = e_date (?es ! j)" by (simp only: di(2) dj(2) d)
    with same have "e_slug (?es ! j) = e_date (?es ! j) @ ''-'' @ str_int (d_id dj) @ ''.html''"
      by (rule mp)
    then have sj: "e_slug (?es ! j) = d_date dj @ ''-'' @ str_int (d_id dj) @ ''.html''"
      by (simp only: dj(2))
    from di(3) show False
    proof
      assume a: "e_slug (?es ! i) = d_date di @ ''.html''"
      have "d_date dj @ ''.html'' = d_date dj @ ''-'' @ str_int (d_id dj) @ ''.html''"
        by (metis a eq sj d)
      then show False by simp
    next
      assume a: "e_slug (?es ! i) = d_date di @ ''-'' @ str_int (d_id di) @ ''.html''"
      have "d_date dj @ ''-'' @ str_int (d_id di) @ ''.html'' =
            d_date dj @ ''-'' @ str_int (d_id dj) @ ''.html''"
        by (metis a eq sj d)
      then have "str_int (d_id di) = str_int (d_id dj)" by simp
      then have "d_id di = d_id dj" by (rule str_int_inj)
      with ids show False by simp
    qed
  qed
  then have "length (e_date (?es ! i)) = length (e_date (?es ! j)) \<and> d_id di \<noteq> d_id dj \<longrightarrow>
        e_slug (?es ! i) \<noteq> e_slug (?es ! j)" by simp
  with di(1) dj(1) same show ?thesis by (intro exI[of _ di] exI[of _ dj] conjI)
qed

lemma mset_concat_map:
  "mset xs = mset ys \<Longrightarrow> mset (concat (map g xs)) = mset (concat (map g ys))"
proof -
  have c: "\<And>zs. mset (concat (map g zs)) = (\<Sum>z\<in>#mset zs. mset (g z))"
    by (induct_tac zs) simp_all
  assume "mset xs = mset ys"
  then show ?thesis by (simp add: c)
qed

lemma numeric_posts_sorted:
  "mset (numeric_posts (sort_key fst files)) = mset (numeric_posts files)"
  unfolding numeric_posts_def by (rule mset_concat_map) simp

lemma distinct_html:
  "distinct (map (\<lambda>m. m_slug m @ ''.html'') ms) = distinct (map m_slug ms)"
proof -
  have "map (\<lambda>m. m_slug m @ ''.html'') ms = map (\<lambda>s. s @ ''.html'') (map m_slug ms)" by simp
  moreover have "inj_on (\<lambda>s. s @ ''.html'') (set (map m_slug ms))" by (rule inj_onI) simp
  ultimately show ?thesis by (simp only: distinct_map) simp
qed

lemma blog_slugs_distinct:
  assumes "blog_entries st bcfg files c = Inr (c', ls)"
  shows "distinct (map e_slug (ls_entries ls)) = distinct (map m_slug (numeric_posts files))"
proof -
  from assms have "map e_slug (ls_entries ls) =
      map (\<lambda>m. m_slug m @ ''.html'') (numeric_posts (sort_key fst files))"
    unfolding blog_entries_def by (drule_tac blog_loop_slugs) (simp add: initial_state_def)
  then have "distinct (map e_slug (ls_entries ls)) =
      distinct (map m_slug (numeric_posts (sort_key fst files)))"
    by (simp only: distinct_html)
  also have "\<dots> = distinct (map m_slug (numeric_posts files))"
  proof (rule mset_eq_imp_distinct_iff)
    show "mset (map m_slug (numeric_posts (sort_key fst files))) = mset (map m_slug (numeric_posts files))"
      using numeric_posts_sorted[of files] by (metis mset_map)
  qed
  finally show ?thesis .
qed

text \<open>
  Claim C4, as the code has it. In a filter-driven section, two entries whose effective
  dates have the same length, as dates of the form \<^verbatim>\<open>YYYY-MM-DD\<close> have, and whose images
  have different identifiers never share a slug; and of two entries with the same
  effective date the later one has the slug made of the date, a dash and the identifier of
  its image. In a blog nothing disambiguates: no two entries share a slug exactly when no
  two manifests of the blog name the same slug.
\<close>

theorem slugs_of_a_section:
  "(section_entries st scfg c = Inr (c', ls) \<longrightarrow>
      (\<forall>i j. i < j \<and> j < length (ls_entries ls) \<longrightarrow>
         (\<exists>di dj. e_images (ls_entries ls ! i) = [di] \<and> e_images (ls_entries ls ! j) = [dj] \<and>
            (e_date (ls_entries ls ! i) = e_date (ls_entries ls ! j) \<longrightarrow>
               e_slug (ls_entries ls ! j) =
                 e_date (ls_entries ls ! j) @ ''-'' @ str_int (d_id dj) @ ''.html'') \<and>
            (length (e_date (ls_entries ls ! i)) = length (e_date (ls_entries ls ! j)) \<and>
             d_id di \<noteq> d_id dj \<longrightarrow>
               e_slug (ls_entries ls ! i) \<noteq> e_slug (ls_entries ls ! j))))) \<and>
   (blog_entries st bcfg files c = Inr (c', ls) \<longrightarrow>
      distinct (map e_slug (ls_entries ls)) = distinct (map m_slug (numeric_posts files)))"
proof (intro conjI impI allI)
  fix i j
  assume run: "section_entries st scfg c = Inr (c', ls)"
    and ij: "i < j \<and> j < length (ls_entries ls)"
  have "dated ls"
    using run unfolding section_entries_def
    by (rule section_loop_invariant[where P = dated, rotated 2]) (auto intro: dated_section_step dated_initial)
  with ij show "\<exists>di dj. e_images (ls_entries ls ! i) = [di] \<and> e_images (ls_entries ls ! j) = [dj] \<and>
            (e_date (ls_entries ls ! i) = e_date (ls_entries ls ! j) \<longrightarrow>
               e_slug (ls_entries ls ! j) =
                 e_date (ls_entries ls ! j) @ ''-'' @ str_int (d_id dj) @ ''.html'') \<and>
            (length (e_date (ls_entries ls ! i)) = length (e_date (ls_entries ls ! j)) \<and>
             d_id di \<noteq> d_id dj \<longrightarrow>
               e_slug (ls_entries ls ! i) \<noteq> e_slug (ls_entries ls ! j))"
    by (intro pair_slugs) simp_all
next
  assume "blog_entries st bcfg files c = Inr (c', ls)"
  then show "distinct (map e_slug (ls_entries ls)) = distinct (map m_slug (numeric_posts files))"
    by (rule blog_slugs_distinct)
qed

theorem slugs_of_a_section_witness:
  "(\<exists>c' ls. section_entries store0 birds ctx0 = Inr (c', ls) \<and>
      (0::nat) < 1 \<and> 1 < length (ls_entries ls) \<and>
      e_date (ls_entries ls ! 0) = e_date (ls_entries ls ! 1) \<and>
      length (e_date (ls_entries ls ! 0)) = length (e_date (ls_entries ls ! 1)) \<and>
      e_slug (ls_entries ls ! 1) = ''2020-09-12-8.html'' \<and>
      e_slug (ls_entries ls ! 0) \<noteq> e_slug (ls_entries ls ! 1)) \<and>
   (\<exists>c' ls. blog_entries store0 garden two_posts ctx0 = Inr (c', ls) \<and>
      distinct (map m_slug (numeric_posts two_posts)) \<and>
      distinct (map e_slug (ls_entries ls)))"
proof -
  have r: "\<not> isl (section_entries store0 birds ctx0)" by code_simp
  have n: "length (ls_entries (snd (projr (section_entries store0 birds ctx0)))) = 2" by code_simp
  have dates: "map e_date (ls_entries (snd (projr (section_entries store0 birds ctx0)))) =
      [''2020-09-12'', ''2020-09-12'']" by code_simp
  have ids: "map (map d_id \<circ> e_images) (ls_entries (snd (projr (section_entries store0 birds ctx0)))) =
      [[7], [8]]" by code_simp
  from r obtain c' ls where run: "section_entries store0 birds ctx0 = Inr (c', ls)"
    by (cases "section_entries store0 birds ctx0") auto
  from run n have len: "length (ls_entries ls) = 2" by simp
  from run dates have d: "map e_date (ls_entries ls) = [''2020-09-12'', ''2020-09-12'']" by simp
  from run ids have i: "map (map d_id \<circ> e_images) (ls_entries ls) = [[7], [8]]" by simp
  from len obtain a b where es: "ls_entries ls = [a, b]"
    by (cases "ls_entries ls"; cases "tl (ls_entries ls)") auto
  from d es have same: "e_date (ls_entries ls ! 0) = e_date (ls_entries ls ! 1)"
    and d1: "e_date (ls_entries ls ! 1) = ''2020-09-12''" by simp_all
  from same have lens: "length (e_date (ls_entries ls ! 0)) = length (e_date (ls_entries ls ! 1))"
    by (rule arg_cong)
  from len have ij: "(0::nat) < 1 \<and> 1 < length (ls_entries ls)" by simp
  from slugs_of_a_section[of store0 birds ctx0 c' ls garden "[]"] run
  have "\<forall>i j. i < j \<and> j < length (ls_entries ls) \<longrightarrow>
         (\<exists>di dj. e_images (ls_entries ls ! i) = [di] \<and> e_images (ls_entries ls ! j) = [dj] \<and>
            (e_date (ls_entries ls ! i) = e_date (ls_entries ls ! j) \<longrightarrow>
               e_slug (ls_entries ls ! j) =
                 e_date (ls_entries ls ! j) @ ''-'' @ str_int (d_id dj) @ ''.html'') \<and>
            (length (e_date (ls_entries ls ! i)) = length (e_date (ls_entries ls ! j)) \<and>
             d_id di \<noteq> d_id dj \<longrightarrow>
               e_slug (ls_entries ls ! i) \<noteq> e_slug (ls_entries ls ! j)))"
    by simp
  from this[rule_format, OF ij] obtain di dj where
    im: "e_images (ls_entries ls ! 0) = [di]" "e_images (ls_entries ls ! 1) = [dj]"
    and sl: "e_date (ls_entries ls ! 0) = e_date (ls_entries ls ! 1) \<longrightarrow>
       e_slug (ls_entries ls ! 1) = e_date (ls_entries ls ! 1) @ ''-'' @ str_int (d_id dj) @ ''.html''"
    and ne: "length (e_date (ls_entries ls ! 0)) = length (e_date (ls_entries ls ! 1)) \<and>
             d_id di \<noteq> d_id dj \<longrightarrow> e_slug (ls_entries ls ! 0) \<noteq> e_slug (ls_entries ls ! 1)"
    by (elim exE conjE)
  from i es im have idv: "d_id di = 7" "d_id dj = 8" by simp_all
  have s8: "str_int 8 = ''8''" by code_simp
  from sl same have "e_slug (ls_entries ls ! 1) = e_date (ls_entries ls ! 1) @ ''-'' @ str_int (d_id dj) @ ''.html''"
    by (rule mp)
  then have "e_slug (ls_entries ls ! 1) = ''2020-09-12'' @ ''-'' @ ''8'' @ ''.html''"
    by (simp only: d1 idv s8)
  then have s1: "e_slug (ls_entries ls ! 1) = ''2020-09-12-8.html''" by simp
  from idv have "d_id di \<noteq> d_id dj" by simp
  with ne lens have s0: "e_slug (ls_entries ls ! 0) \<noteq> e_slug (ls_entries ls ! 1)" by simp
  have part1: "\<exists>c' ls. section_entries store0 birds ctx0 = Inr (c', ls) \<and>
      (0::nat) < 1 \<and> 1 < length (ls_entries ls) \<and>
      e_date (ls_entries ls ! 0) = e_date (ls_entries ls ! 1) \<and>
      length (e_date (ls_entries ls ! 0)) = length (e_date (ls_entries ls ! 1)) \<and>
      e_slug (ls_entries ls ! 1) = ''2020-09-12-8.html'' \<and>
      e_slug (ls_entries ls ! 0) \<noteq> e_slug (ls_entries ls ! 1)"
    using ij by (intro exI[of _ c'] exI[of _ ls] conjI) (rule run same lens s1 s0 | simp)+
  have rb: "\<not> isl (blog_entries store0 garden two_posts ctx0)" by code_simp
  then obtain cb lb where runb: "blog_entries store0 garden two_posts ctx0 = Inr (cb, lb)"
    by (cases "blog_entries store0 garden two_posts ctx0") auto
  have ev: "distinct (map m_slug (numeric_posts two_posts))" by code_simp
  from slugs_of_a_section[of store0 birds ctx0 cb lb garden two_posts] runb
  have "distinct (map e_slug (ls_entries lb)) = distinct (map m_slug (numeric_posts two_posts))" by simp
  with ev have db: "distinct (map e_slug (ls_entries lb))" by simp
  have part2: "\<exists>c' ls. blog_entries store0 garden two_posts ctx0 = Inr (c', ls) \<and>
      distinct (map m_slug (numeric_posts two_posts)) \<and> distinct (map e_slug (ls_entries ls))"
    by (intro exI[of _ cb] exI[of _ lb] conjI) (rule runb ev db)+
  from part1 part2 show ?thesis by (rule conjI)
qed

text \<open>
  Two manifests of one blog that name the same slug give two entries with the same slug.
  In a filter-driven section, an image whose persisted date is \<^verbatim>\<open>2020-09-12-8\<close> gets the
  slug that the second image of 2020-09-12, image 8, already has.
\<close>

theorem shared_slug_counterexample:
  "map_sum id (map e_slug \<circ> ls_entries \<circ> snd)
     (blog_entries store0 garden
        [(''100.json'', post ''Roses'' ''roses'' [7]), (''200.json'', post ''More roses'' ''roses'' [8])]
        ctx0) = Inr [''roses.html'', ''roses.html''] \<and>
   map_sum id (map e_slug \<circ> ls_entries \<circ> snd) (section_entries store1 birds ctx0) =
     Inr [''2020-09-12.html'', ''2020-09-12-8.html'', ''2020-09-12-8.html''] \<and>
   map_sum id (map (map d_id \<circ> e_images) \<circ> ls_entries \<circ> snd) (section_entries store1 birds ctx0) =
     Inr [[7], [8], [9]]"
  by code_simp

subsection \<open>The date of the page of a post in a filter-driven section\<close>

lemma decide_frame:
  "decide tag c = Inr (a, c') \<Longrightarrow>
     all_images c' = all_images c \<and> all_tags c' = all_tags c \<and> tag_paths c' = tag_paths c \<and>
     db_tags c' tag = Some a \<and> (\<forall>q. q \<noteq> tag \<longrightarrow> db_tags c' q = db_tags c q) \<and>
     (\<forall>b. db_tags c tag = Some b \<longrightarrow> b = a)"
  by (auto simp: decide_def split: option.splits sum.splits)

lemma register_frame:
  "all_images (register i tag c) = all_images c \<and> db_tags (register i tag c) = db_tags c"
proof (induction i tag c rule: register.induct)
  case (1 i tag c)
  define c1 where "c1 = (case all_tags c tag of
                    None \<Rightarrow> c\<lparr>all_tags := (all_tags c)(tag \<mapsto> [i]),
                               tag_paths := (tag_paths c)(tag \<mapsto> tag_slug tag)\<rparr>
                  | Some ids \<Rightarrow> c\<lparr>all_tags := (all_tags c)(tag \<mapsto> ids @ [i])\<rparr>)"
  have f1: "all_images c1 = all_images c \<and> db_tags c1 = db_tags c"
    by (simp add: c1_def split: option.splits)
  have eq: "register i tag c =
      (if tag = [] then c else if CHR ''/'' \<in> set tag then register i (rsplit_head (CHR ''/'') tag) c1 else c1)"
    by (subst register.simps) (simp add: c1_def Let_def)
  show ?case
  proof (cases "tag \<noteq> [] \<and> CHR ''/'' \<in> set tag")
    case True
    with 1[of c1] have "all_images (register i (rsplit_head (CHR ''/'') tag) c1) = all_images c1 \<and>
       db_tags (register i (rsplit_head (CHR ''/'') tag) c1) = db_tags c1"
      by (simp add: c1_def)
    with True f1 show ?thesis by (simp only: eq) simp
  next
    case False
    with f1 show ?thesis by (simp only: eq) auto
  qed
qed

lemma walk_unfold:
  "walk i tag (tags, c) =
     (if tag = [] then Inr (tags, c)
      else
        (case decide tag c of
           Inl e \<Rightarrow> Inl e
         | Inr (allowed, c') \<Rightarrow>
             if allowed then Inr (tags @ [split_on (CHR ''/'') tag], register i tag c')
             else if CHR ''/'' \<in> set tag then walk i (rsplit_head (CHR ''/'') tag) (tags, c')
             else Inr (tags, c')))"
  by (rule walk.simps)

lemma walk_images:
  "walk i tag (tags, c) = Inr (tags', c') \<Longrightarrow> all_images c' = all_images c"
proof (induction "length tag" arbitrary: tag c rule: less_induct)
  case less
  show ?case
  proof (cases "tag = []")
    case True
    with less.prems show ?thesis by (simp add: walk_unfold)
  next
    case False
    with less.prems obtain a c1 where d: "decide tag c = Inr (a, c1)"
      by (cases "decide tag c") (auto simp: walk_unfold[of i tag])
    from decide_frame[OF d] have f: "all_images c1 = all_images c" by simp
    show ?thesis
    proof (cases a)
      case True
      with False d less.prems have "c' = register i tag c1"
        by (simp add: walk_unfold[of i tag])
      with f show ?thesis by (simp add: register_frame)
    next
      case na: False
      show ?thesis
      proof (cases "CHR ''/'' \<in> set tag")
        case True
        with False d na less.prems have "walk i (rsplit_head (CHR ''/'') tag) (tags, c1) = Inr (tags', c')"
          by (simp add: walk_unfold[of i tag])
        from less.hyps[OF rsplit_head_shorter[OF True] this] f show ?thesis by simp
      next
        case nos: False
        with False d na less.prems f show ?thesis
          by (simp add: walk_unfold[of i tag])
      qed
    qed
  qed
qed

lemma walk_tags_images:
  "walk_tags i ts (tags, c) = Inr (tags', c') \<Longrightarrow> all_images c' = all_images c"
proof (induction ts arbitrary: tags c)
  case Nil
  then show ?case by simp
next
  case (Cons t ts)
  then obtain tags1 c1 where w: "walk i t (tags, c) = Inr (tags1, c1)"
    and r: "walk_tags i ts (tags1, c1) = Inr (tags', c')"
    by (auto split: sum.splits)
  from walk_images[OF w] Cons.IH[OF r] show ?case by simp
qed

lemma process_image_hit:
  "process_image st x c = Inr (d, c') \<Longrightarrow> all_images c (requested_id x) = Some cached \<Longrightarrow>
     d = cached \<and> c' = c"
  by (cases x) (simp_all add: process_image_def requested_id_def)

lemma process_image_miss_cache:
  assumes "process_image st (Inr im) c = Inr (d, c')" and "all_images c (image_id im) = None"
  shows "d_datetime d = creation_date im \<and> all_images c' = (all_images c)(image_id im \<mapsto> d)"
proof -
  from assms(2) have miss: "all_images c (requested_id (Inr im)) = None" by (simp add: requested_id_def)
  from process_image_miss[OF assms(1) miss] obtain im' p tags c2 where
    r: "resolve st (Inr im) = Some im'"
    and w: "walk_tags (requested_id (Inr im)) (image_tags im')
       ([], c\<lparr>image_files := insert (str_int (image_id im') @ map lower_char (path_suffix (path_name p)))
                               (image_files c)\<rparr>) = Inr (tags, c2)"
    and dd: "d = \<lparr>d_id = image_id im',
          d_date = (case db_images st (image_id im') of Some row \<Rightarrow> row
                    | None \<Rightarrow> (case original_date im' of Some v \<Rightarrow> exif_date v
                                | None \<Rightarrow> strftime_ymd st (creation_date im'))),
          d_datetime = creation_date im', d_title = image_title im', d_alt = image_alt im',
          d_caption = image_caption im',
          d_file = str_int (image_id im') @ map lower_char (path_suffix (path_name p)),
          d_tags = tags\<rparr>"
    and c': "c' = c2\<lparr>all_images := (all_images c2)(image_id im' \<mapsto> d)\<rparr>"
    by (elim exE conjE)
  from r have im': "im' = im" by (simp add: resolve_def)
  from dd have t: "d_datetime d = creation_date im'" by (rule ssubst) simp
  from walk_tags_images[OF w] have "all_images c2 = all_images c" by simp
  with c' have "all_images c' = (all_images c)(image_id im' \<mapsto> d)" by simp
  with t im' show ?thesis by simp
qed

lemma process_image_datetime:
  assumes p: "process_image st (Inr im) c = Inr (d, c')"
    and m: "im \<in> set found" and a: "cache_agrees found c" and s: "same_id_same_date found"
  shows "d_datetime d = creation_date im \<and> cache_agrees found c'"
proof (cases "all_images c (image_id im)")
  case (Some cached)
  then have "all_images c (requested_id (Inr im)) = Some cached" by (simp add: requested_id_def)
  from process_image_hit[OF p this] have "d = cached" "c' = c" by simp_all
  moreover from a m Some have "d_datetime cached = creation_date im" unfolding cache_agrees_def by blast
  ultimately show ?thesis using a by simp
next
  case None
  from process_image_miss_cache[OF p None]
  have dd: "d_datetime d = creation_date im" and c': "all_images c' = (all_images c)(image_id im \<mapsto> d)"
    by simp_all
  have "cache_agrees found c'"
    unfolding cache_agrees_def
  proof (intro ballI allI impI)
    fix im' d' assume m': "im' \<in> set found" and h: "all_images c' (image_id im') = Some d'"
    show "d_datetime d' = creation_date im'"
    proof (cases "image_id im' = image_id im")
      case True
      with h c' have "d' = d" by simp
      moreover from s m m' True have "creation_date im' = creation_date im"
        unfolding same_id_same_date_def by blast
      ultimately show ?thesis using dd by simp
    next
      case False
      with h c' have "all_images c (image_id im') = Some d'" by simp
      with a m' show ?thesis unfolding cache_agrees_def by blast
    qed
  qed
  with dd show ?thesis by simp
qed

lemma section_loop_datetimes:
  assumes "same_id_same_date found"
  shows "section_loop st cfg ims (c, ls) = Inr (c', ls') \<Longrightarrow> set ims \<subseteq> set found \<Longrightarrow>
     cache_agrees found c \<Longrightarrow>
     map (\<lambda>e. map d_datetime (e_images e)) (ls_entries ls') =
     map (\<lambda>e. map d_datetime (e_images e)) (ls_entries ls) @
     map (\<lambda>im. [creation_date im]) (filter (\<lambda>im. full_path im \<noteq> None) ims)"
proof (induction ims arbitrary: c ls)
  case Nil
  then show ?case by simp
next
  case (Cons im ims)
  show ?case
  proof (cases "full_path im = None")
    case True
    with Cons show ?thesis by simp
  next
    case False
    with Cons.prems(1) obtain d c1 where
      p: "process_image st (Inr im) c = Inr (d, c1)"
      and r: "section_loop st cfg ims (c1, section_step cfg d ls) = Inr (c', ls')"
      by (auto split: sum.splits)
    from Cons.prems(2) have m: "im \<in> set found" by simp
    from process_image_datetime[OF p m Cons.prems(3) assms]
    have dd: "d_datetime d = creation_date im" and a1: "cache_agrees found c1" by simp_all
    obtain e where es: "ls_entries (section_step cfg d ls) =
          set_forward (section_slug (ls_dates ls) d) (ls_entries ls) @ [e]" and ei: "e_images e = [d]"
      using section_step_shape[of cfg d ls] by blast
    have "map e_images (ls_entries (section_step cfg d ls)) = map e_images (ls_entries ls) @ [[d]]"
      by (simp add: es ei)
    then have "map (map d_datetime) (map e_images (ls_entries (section_step cfg d ls))) =
               map (map d_datetime) (map e_images (ls_entries ls) @ [[d]])" by (rule arg_cong)
    then have step: "map (\<lambda>e. map d_datetime (e_images e)) (ls_entries (section_step cfg d ls)) =
      map (\<lambda>e. map d_datetime (e_images e)) (ls_entries ls) @ [[creation_date im]]"
      by (simp add: dd comp_def)
    from Cons.IH[OF r _ a1] Cons.prems(2) step False show ?thesis by simp
  qed
qed

lemma section_pages_dates:
  "map (\<lambda>e. map d_datetime (e_images e)) es = map (\<lambda>t. [t]) ts \<Longrightarrow>
     \<exists>posts. section_pages cfg es = Inr posts \<and> map p_date posts = map Some ts"
proof (induction es arbitrary: ts)
  case Nil
  then show ?case by simp
next
  case (Cons e es)
  then obtain t ts' where ts: "ts = t # ts'" by (cases ts) auto
  with Cons.prems have h: "map d_datetime (e_images e) = [t]"
    and r: "map (\<lambda>e. map d_datetime (e_images e)) es = map (\<lambda>t. [t]) ts'" by simp_all
  from h obtain d where d: "e_images e = [d]" "d_datetime d = t" by (cases "e_images e") auto
  from Cons.IH[OF r] obtain posts where "section_pages cfg es = Inr posts" "map p_date posts = map Some ts'"
    by blast
  with d ts show ?case by simp
qed

text \<open>
  Claim C10. When the photo store gives one creation date per identifier and the cache
  agrees with it, the pages of the posts of a filter-driven section carry, in order, the
  creation dates of the images found that have a path: whatever the override table and the
  EXIF data say, they change the date string and the slug of a post, never the date of its
  page, which is the key the feed is sorted by.
\<close>

theorem feed_date_is_creation_date:
  assumes "section_entries st cfg c = Inr (c', ls)"
    and "cache_agrees (search_images st (sc_all_tags cfg) (sc_no_tags cfg)) c"
    and "same_id_same_date (search_images st (sc_all_tags cfg) (sc_no_tags cfg))"
  shows "\<exists>posts. section_pages cfg (ls_entries ls) = Inr posts \<and>
           map p_date posts =
           map (\<lambda>im. Some (creation_date im))
             (filter (\<lambda>im. full_path im \<noteq> None) (search_images st (sc_all_tags cfg) (sc_no_tags cfg)))"
proof -
  let ?found = "search_images st (sc_all_tags cfg) (sc_no_tags cfg)"
  from section_loop_datetimes[OF assms(3) assms(1)[unfolded section_entries_def] subset_refl assms(2)]
  have "map (\<lambda>e. map d_datetime (e_images e)) (ls_entries ls) =
        map (\<lambda>t. [t]) (map creation_date (filter (\<lambda>im. full_path im \<noteq> None) ?found))"
    by (simp add: initial_state_def comp_def)
  from section_pages_dates[OF this, of cfg] show ?thesis by (simp add: comp_def)
qed

theorem feed_date_is_creation_date_witness:
  "cache_agrees (search_images store0 (sc_all_tags birds) (sc_no_tags birds)) ctx0 \<and>
   same_id_same_date (search_images store0 (sc_all_tags birds) (sc_no_tags birds)) \<and>
   db_images store0 8 = Some ''2020-09-12'' \<and>
   (\<exists>c' ls posts. section_entries store0 birds ctx0 = Inr (c', ls) \<and>
      section_pages birds (ls_entries ls) = Inr posts \<and>
      map p_date posts = [Some 1600000000000000, Some 1600000300000000])"
proof -
  have a: "cache_agrees (search_images store0 (sc_all_tags birds) (sc_no_tags birds)) ctx0"
    by (simp add: cache_agrees_def ctx0_def)
  have b: "same_id_same_date (search_images store0 (sc_all_tags birds) (sc_no_tags birds))"
    by (simp add: same_id_same_date_def store0_def heron_def egret_def)
  have o: "db_images store0 8 = Some ''2020-09-12''" by (simp add: store0_def)
  have r: "\<not> isl (section_entries store0 birds ctx0)" by code_simp
  then obtain c' ls where run: "section_entries store0 birds ctx0 = Inr (c', ls)"
    by (cases "section_entries store0 birds ctx0") auto
  have ev: "map (\<lambda>im. Some (creation_date im))
             (filter (\<lambda>im. full_path im \<noteq> None) (search_images store0 (sc_all_tags birds) (sc_no_tags birds)))
            = [Some 1600000000000000, Some 1600000300000000]"
    by (simp add: store0_def heron_def egret_def)
  from feed_date_is_creation_date[OF run a b] ev obtain posts where
    sp: "section_pages birds (ls_entries ls) = Inr posts"
    and pd: "map p_date posts = [Some 1600000000000000, Some 1600000300000000]" by auto
  show ?thesis
    by (intro conjI exI[of _ c'] exI[of _ ls] exI[of _ posts]) (rule a b o run sp pd)+
qed

subsection \<open>The walk over the prefixes of a raw tag\<close>

lemma prefixes_Nil [simp]: "prefixes [] = []"
  by (simp add: prefixes.simps)

lemma prefixes_parent:
  "tag \<noteq> [] \<Longrightarrow> CHR ''/'' \<in> set tag \<Longrightarrow> prefixes tag = tag # prefixes (rsplit_head (CHR ''/'') tag)"
  by (subst prefixes.simps) simp

lemma prefixes_root: "tag \<noteq> [] \<Longrightarrow> CHR ''/'' \<notin> set tag \<Longrightarrow> prefixes tag = [tag]"
  by (subst prefixes.simps) simp

lemma prefixes_length: "q \<in> set (prefixes tag) \<Longrightarrow> length q \<le> length tag"
proof (induction "length tag" arbitrary: tag rule: less_induct)
  case less
  show ?case
  proof (cases "tag \<noteq> [] \<and> CHR ''/'' \<in> set tag")
    case True
    then have s: "length (rsplit_head (CHR ''/'') tag) < length tag" by simp
    from True less.prems have "q = tag \<or> q \<in> set (prefixes (rsplit_head (CHR ''/'') tag))"
      by (simp add: prefixes_parent)
    with less.hyps[OF s] s show ?thesis by auto
  next
    case False
    with less.prems show ?thesis by (cases "tag = []") (simp_all add: prefixes_root)
  qed
qed

lemma not_in_parent:
  assumes "CHR ''/'' \<in> set tag"
  shows "tag \<notin> set (prefixes (rsplit_head (CHR ''/'') tag))"
proof
  assume "tag \<in> set (prefixes (rsplit_head (CHR ''/'') tag))"
  then have "length tag \<le> length (rsplit_head (CHR ''/'') tag)" by (rule prefixes_length)
  moreover have "length (rsplit_head (CHR ''/'') tag) < length tag"
    using assms by (rule rsplit_head_shorter)
  ultimately show False by linarith
qed

lemma prefixes_distinct: "distinct (prefixes tag)"
proof (induction "length tag" arbitrary: tag rule: less_induct)
  case less
  show ?case
  proof (cases "tag \<noteq> [] \<and> CHR ''/'' \<in> set tag")
    case True
    with less.hyps[of "rsplit_head (CHR ''/'') tag"] not_in_parent[of tag] show ?thesis
      by (simp add: prefixes_parent)
  next
    case False
    then show ?thesis by (cases "tag = []") (simp_all add: prefixes_root)
  qed
qed

lemma prefixes_from:
  "p \<in> set (prefixes tag) \<Longrightarrow> dropWhile (\<lambda>q. q \<noteq> p) (prefixes tag) = prefixes p"
proof (induction "length tag" arbitrary: tag rule: less_induct)
  case less
  show ?case
  proof (cases "tag \<noteq> [] \<and> CHR ''/'' \<in> set tag")
    case True
    show ?thesis
    proof (cases "p = tag")
      case eq: True
      with True show ?thesis by (simp add: prefixes_parent)
    next
      case False
      with True less.prems have "p \<in> set (prefixes (rsplit_head (CHR ''/'') tag))"
        by (simp add: prefixes_parent)
      with less.hyps[of "rsplit_head (CHR ''/'') tag"] True
      have "dropWhile (\<lambda>q. q \<noteq> p) (prefixes (rsplit_head (CHR ''/'') tag)) = prefixes p" by simp
      with True False show ?thesis by (simp add: prefixes_parent)
    qed
  next
    case False
    with less.prems show ?thesis by (cases "tag = []") (simp_all add: prefixes_root)
  qed
qed

lemma before_not_in_prefixes:
  assumes "p \<in> set (prefixes tag)" and "q \<in> set (takeWhile (\<lambda>q. q \<noteq> p) (prefixes tag))"
  shows "q \<notin> set (prefixes p)"
proof -
  have "distinct (takeWhile (\<lambda>q. q \<noteq> p) (prefixes tag) @ dropWhile (\<lambda>q. q \<noteq> p) (prefixes tag))"
    using prefixes_distinct[of tag] by simp
  with assms(2) have "q \<notin> set (dropWhile (\<lambda>q. q \<noteq> p) (prefixes tag))"
    by (simp only: distinct_append) blast
  with prefixes_from[OF assms(1)] show ?thesis by simp
qed

lemma register_unfold:
  "register i tag c =
     (if tag = [] then c
      else if CHR ''/'' \<in> set tag
        then register i (rsplit_head (CHR ''/'') tag)
          (case all_tags c tag of
                    None \<Rightarrow> c\<lparr>all_tags := (all_tags c)(tag \<mapsto> [i]),
                               tag_paths := (tag_paths c)(tag \<mapsto> tag_slug tag)\<rparr>
                  | Some ids \<Rightarrow> c\<lparr>all_tags := (all_tags c)(tag \<mapsto> ids @ [i])\<rparr>)
        else (case all_tags c tag of
                    None \<Rightarrow> c\<lparr>all_tags := (all_tags c)(tag \<mapsto> [i]),
                               tag_paths := (tag_paths c)(tag \<mapsto> tag_slug tag)\<rparr>
                  | Some ids \<Rightarrow> c\<lparr>all_tags := (all_tags c)(tag \<mapsto> ids @ [i])\<rparr>))"
  by (subst register.simps) (simp add: Let_def)

lemma register_index:
  "all_tags (register i tag c) q =
     (if q \<in> set (prefixes tag) then Some (indexed c q @ [i]) else all_tags c q)"
proof (induction "length tag" arbitrary: tag c rule: less_induct)
  case less
  define c1 where "c1 = (case all_tags c tag of
                    None \<Rightarrow> c\<lparr>all_tags := (all_tags c)(tag \<mapsto> [i]),
                               tag_paths := (tag_paths c)(tag \<mapsto> tag_slug tag)\<rparr>
                  | Some ids \<Rightarrow> c\<lparr>all_tags := (all_tags c)(tag \<mapsto> ids @ [i])\<rparr>)"
  have c1: "all_tags c1 = (all_tags c)(tag \<mapsto> indexed c tag @ [i])"
    by (simp add: c1_def indexed_def split: option.splits)
  show ?case
  proof (cases "tag = []")
    case True
    then show ?thesis by (simp add: register_unfold)
  next
    case False
    show ?thesis
    proof (cases "CHR ''/'' \<in> set tag")
      case True
      let ?parent = "rsplit_head (CHR ''/'') tag"
      from False True have r: "register i tag c = register i ?parent c1"
        by (simp add: register_unfold[of i tag] c1_def)
      have ih: "all_tags (register i ?parent c1) q =
          (if q \<in> set (prefixes ?parent) then Some (indexed c1 q @ [i]) else all_tags c1 q)"
        using less.hyps[of ?parent c1] True by simp
      show ?thesis
      proof (cases "q = tag")
        case eq: True
        with not_in_parent[OF True] ih c1 r False True show ?thesis
          by (simp add: prefixes_parent)
      next
        case ne: False
        with c1 have "indexed c1 q = indexed c q" "all_tags c1 q = all_tags c q"
          by (simp_all add: indexed_def)
        with ih r ne False True show ?thesis by (simp add: prefixes_parent)
      qed
    next
      case nos: False
      with False have "register i tag c = c1" by (simp add: register_unfold[of i tag] c1_def)
      with c1 False nos show ?thesis by (simp add: prefixes_root)
    qed
  qed
qed

lemma decide_keeps:
  "decide tag c = Inr (a, c') \<Longrightarrow> db_tags c q = Some b \<Longrightarrow> db_tags c' q = Some b"
  using decide_frame[of tag c a c'] by (cases "q = tag") auto

lemma walk_keeps:
  "walk i tag (tags, c) = Inr (tags', c') \<Longrightarrow> db_tags c q = Some b \<Longrightarrow> db_tags c' q = Some b"
proof (induction "length tag" arbitrary: tag c rule: less_induct)
  case less
  show ?case
  proof (cases "tag = []")
    case True
    with less.prems show ?thesis by (simp add: walk_unfold)
  next
    case False
    with less.prems(1) obtain a c1 where d: "decide tag c = Inr (a, c1)"
      by (cases "decide tag c") (auto simp: walk_unfold[of i tag])
    from decide_keeps[OF d less.prems(2)] have k: "db_tags c1 q = Some b" .
    show ?thesis
    proof (cases a)
      case True
      with False d less.prems(1) have "c' = register i tag c1"
        by (simp add: walk_unfold[of i tag])
      with k show ?thesis by (simp add: register_frame)
    next
      case na: False
      show ?thesis
      proof (cases "CHR ''/'' \<in> set tag")
        case True
        with False d na less.prems(1) have "walk i (rsplit_head (CHR ''/'') tag) (tags, c1) = Inr (tags', c')"
          by (simp add: walk_unfold[of i tag])
        from less.hyps[OF rsplit_head_shorter[OF True] this k] show ?thesis .
      next
        case nos: False
        with False d na less.prems(1) k show ?thesis
          by (simp add: walk_unfold[of i tag])
      qed
    qed
  qed
qed

lemma walk_result:
  "walk i tag (tags, c) = Inr (tags', c') \<Longrightarrow>
     (case find (\<lambda>p. db_tags c' p = Some True) (prefixes tag) of
        None \<Rightarrow>
          tags' = tags \<and> all_tags c' = all_tags c \<and>
          list_all (\<lambda>p. db_tags c' p = Some False) (prefixes tag)
      | Some p \<Rightarrow>
          tags' = tags @ [split_on (CHR ''/'') p] \<and>
          list_all (\<lambda>q. db_tags c' q = Some False) (takeWhile (\<lambda>q. q \<noteq> p) (prefixes tag)) \<and>
          (\<forall>q. all_tags c' q =
                 (if q \<in> set (prefixes p) then Some (indexed c q @ [i]) else all_tags c q)))"
proof (induction "length tag" arbitrary: tag c rule: less_induct)
  case less
  show ?case
  proof (cases "tag = []")
    case True
    with less.prems show ?thesis by (simp add: walk_unfold)
  next
    case False
    with less.prems obtain a c1 where d: "decide tag c = Inr (a, c1)"
      by (cases "decide tag c") (auto simp: walk_unfold[of i tag])
    from decide_frame[OF d] have f: "all_tags c1 = all_tags c" and t: "db_tags c1 tag = Some a"
      by simp_all
    from f have ix: "indexed c1 = indexed c" by (simp add: indexed_def fun_eq_iff)
    show ?thesis
    proof (cases a)
      case True
      with False d less.prems have r: "c' = register i tag c1" "tags' = tags @ [split_on (CHR ''/'') tag]"
        by (simp_all add: walk_unfold[of i tag])
      with t True have "db_tags c' tag = Some True" by (simp add: register_frame)
      moreover have "prefixes tag =
          tag # (if CHR ''/'' \<in> set tag then prefixes (rsplit_head (CHR ''/'') tag) else [])"
        using False by (subst prefixes.simps) simp
      then obtain rest where "prefixes tag = tag # rest" ..
      ultimately show ?thesis using r ix f by (simp add: register_index)
    next
      case na: False
      show ?thesis
      proof (cases "CHR ''/'' \<in> set tag")
        case True
        let ?parent = "rsplit_head (CHR ''/'') tag"
        from True False d na less.prems have w: "walk i ?parent (tags, c1) = Inr (tags', c')"
          by (simp add: walk_unfold[of i tag])
        from walk_keeps[OF w] t na have den: "db_tags c' tag = Some False" by simp
        note ih = less.hyps[OF rsplit_head_shorter[OF True] w]
        show ?thesis
        proof (cases "find (\<lambda>p. db_tags c' p = Some True) (prefixes ?parent)")
          case None
          with ih den f False True show ?thesis by (simp add: prefixes_parent)
        next
          case (Some p)
          then have "p \<in> set (prefixes ?parent)" by (auto simp: find_Some_iff)
          with not_in_parent[OF True] have "tag \<noteq> p" by auto
          with ih Some den f ix False True show ?thesis by (simp add: prefixes_parent)
        qed
      next
        case nos: False
        with False d na less.prems have "tags' = tags" "c' = c1" by (simp_all add: walk_unfold[of i tag])
        with t na f False nos show ?thesis by (simp add: prefixes_root)
      qed
    qed
  qed
qed

text \<open>
  Claim C5, as the code has it. After the walk for one raw tag of an image, take the first
  prefix, from the most specific one to the root, whose persisted decision is to allow. If
  there is one, that prefix is attached to the image, every prefix before it is denied and
  has the index entry it had, it and every shorter prefix have the image appended to their
  index entry, whatever the decisions persisted for the shorter prefixes, and no other
  index entry changes. If there is none, every prefix is denied, nothing is attached and
  the index is unchanged.
\<close>

theorem walk_registers_first_allowed:
  assumes "walk i tag (tags, c) = Inr (tags', c')"
  shows "case find (\<lambda>p. db_tags c' p = Some True) (prefixes tag) of
        None \<Rightarrow>
          tags' = tags \<and> all_tags c' = all_tags c \<and>
          list_all (\<lambda>p. db_tags c' p = Some False) (prefixes tag)
      | Some p \<Rightarrow>
          tags' = tags @ [split_on (CHR ''/'') p] \<and>
          list_all (\<lambda>q. db_tags c' q = Some False \<and> all_tags c' q = all_tags c q)
            (takeWhile (\<lambda>q. q \<noteq> p) (prefixes tag)) \<and>
          list_all (\<lambda>q. all_tags c' q = Some (indexed c q @ [i])) (prefixes p) \<and>
          (\<forall>q. q \<notin> set (prefixes p) \<longrightarrow> all_tags c' q = all_tags c q)"
proof (cases "find (\<lambda>p. db_tags c' p = Some True) (prefixes tag)")
  case None
  with walk_result[OF assms] show ?thesis by simp
next
  case (Some p)
  with walk_result[OF assms] have
    a: "tags' = tags @ [split_on (CHR ''/'') p]"
    and b: "list_all (\<lambda>q. db_tags c' q = Some False) (takeWhile (\<lambda>q. q \<noteq> p) (prefixes tag))"
    and ix: "\<And>q. all_tags c' q = (if q \<in> set (prefixes p) then Some (indexed c q @ [i]) else all_tags c q)"
    by simp_all
  from Some have p: "p \<in> set (prefixes tag)" by (auto simp: find_Some_iff)
  have "list_all (\<lambda>q. db_tags c' q = Some False \<and> all_tags c' q = all_tags c q)
            (takeWhile (\<lambda>q. q \<noteq> p) (prefixes tag))"
    using b before_not_in_prefixes[OF p] ix by (simp add: list_all_iff)
  moreover have "list_all (\<lambda>q. all_tags c' q = Some (indexed c q @ [i])) (prefixes p)"
    using ix by (simp add: list_all_iff)
  ultimately show ?thesis using Some a ix by simp
qed

theorem walk_registers_first_allowed_witness:
  "\<exists>tags' c'. walk 7 ''birds/waders/heron'' ([], asking) = Inr (tags', c') \<and>
     find (\<lambda>p. db_tags c' p = Some True) (prefixes ''birds/waders/heron'') = Some ''birds/waders'' \<and>
     tags' = [[''birds'', ''waders'']] \<and>
     db_tags c' ''birds/waders/heron'' = Some False \<and>
     db_tags c' ''birds'' = Some False \<and>
     all_tags c' ''birds/waders/heron'' = None \<and>
     all_tags c' ''birds/waders'' = Some [7] \<and>
     all_tags c' ''birds'' = Some [7]"
proof -
  let ?r = "walk 7 ''birds/waders/heron'' ([], asking)"
  have r: "\<not> isl ?r" by code_simp
  have leaf: "db_tags (snd (projr ?r)) ''birds/waders/heron'' = Some False" by code_simp
  have mid: "db_tags (snd (projr ?r)) ''birds/waders'' = Some True" by code_simp
  have root: "db_tags (snd (projr ?r)) ''birds'' = Some False" by code_simp
  have ps: "prefixes ''birds/waders/heron'' = [''birds/waders/heron'', ''birds/waders'', ''birds'']"
    by code_simp
  have ps': "prefixes ''birds/waders'' = [''birds/waders'', ''birds'']" by code_simp
  have sp: "split_on (CHR ''/'') ''birds/waders'' = [''birds'', ''waders'']" by code_simp
  have old: "all_tags asking = Map.empty" by (simp add: asking_def ctx0_def)
  from r obtain tags' c' where run: "?r = Inr (tags', c')" by (cases ?r) auto
  from run leaf mid have l: "db_tags c' ''birds/waders/heron'' = Some False"
    and m: "db_tags c' ''birds/waders'' = Some True" by simp_all
  from l m ps have f: "find (\<lambda>p. db_tags c' p = Some True) (prefixes ''birds/waders/heron'') = Some ''birds/waders''"
    by simp
  from walk_registers_first_allowed[OF run] f
  have t: "tags' = [] @ [split_on (CHR ''/'') ''birds/waders'']"
    and den: "list_all (\<lambda>q. db_tags c' q = Some False \<and> all_tags c' q = all_tags asking q)
            (takeWhile (\<lambda>q. q \<noteq> ''birds/waders'') (prefixes ''birds/waders/heron''))"
    and reg: "list_all (\<lambda>q. all_tags c' q = Some (indexed asking q @ [7])) (prefixes ''birds/waders'')"
    by simp_all
  from t sp have t': "tags' = [[''birds'', ''waders'']]" by simp
  from den ps old have d': "all_tags c' ''birds/waders/heron'' = None" by simp
  from reg ps' old have r1: "all_tags c' ''birds/waders'' = Some [7]" and r2: "all_tags c' ''birds'' = Some [7]"
    by (simp_all add: indexed_def)
  from run root have rt: "db_tags c' ''birds'' = Some False" by simp
  show ?thesis
    by (intro exI[of _ tags'] exI[of _ c'] conjI) (rule run f t' l rt d' r1 r2)+
qed

text \<open>
  A denied prefix can be registered for the image: with \<^verbatim>\<open>birds\<close> denied and
  \<^verbatim>\<open>birds/waders\<close> allowed, the walk for the raw tag \<^verbatim>\<open>birds/waders\<close> of image 7 enters the
  image in the index under \<^verbatim>\<open>birds\<close>.
\<close>

theorem denied_ancestor_counterexample:
  "db_tags denied_root ''birds'' = Some False \<and>
   \<not> isl (walk 7 ''birds/waders'' ([], denied_root)) \<and>
   fst (projr (walk 7 ''birds/waders'' ([], denied_root))) = [[''birds'', ''waders'']] \<and>
   db_tags (snd (projr (walk 7 ''birds/waders'' ([], denied_root)))) ''birds'' = Some False \<and>
   all_tags (snd (projr (walk 7 ''birds/waders'' ([], denied_root)))) ''birds'' = Some [7]"
  by code_simp

subsection \<open>The order of the posts of a blog\<close>

text \<open>
  Claim C1 asks for the manifests in ascending order of the integers their file names
  spell. The loop sorts the paths by name, as strings. Here a blog holds a post dated
  2001-01-01 (\<^verbatim>\<open>978307200.json\<close>) and one dated 2023-11-14 (\<^verbatim>\<open>1700000000.json\<close>): the
  later post comes first, the earlier post second, and the links follow that order.
\<close>

theorem blog_order_follows_names:
  "map_sum id (map (\<lambda>e. (e_slug e, e_datetime e, e_backward e, e_forward e)) \<circ> ls_entries \<circ> snd)
     (blog_entries store0 garden
        [(''config.json'', None),
         (''978307200.json'', post ''Old'' ''old'' [7]),
         (''1700000000.json'', post ''New'' ''new'' [8])] ctx0) =
   Inr [(''new.html'', Some 1700000000000000, None, Some ''old.html''),
        (''old.html'', Some 978307200000000, Some ''new.html'', None)]"
  by code_simp

subsection \<open>The comments of a blog post\<close>

text \<open>
  Claim C2 asks that a comment stored under the slug of a post be attached to that post.
  In a blog the key looked up is the slug of the manifest with \<^verbatim>\<open>.html\<close> appended: the
  comment stored under the slug \<^verbatim>\<open>roses\<close> of the post is not attached and is reported as
  unused. In a filter-driven section the key is the slug without \<^verbatim>\<open>.html\<close>, and a comment
  stored under it is attached and removed.
\<close>

theorem blog_comment_is_left_over:
  "map_sum id (\<lambda>s. (map e_comments (ls_entries (snd s)), ls_comments (snd s)))
     (blog_entries store0 garden [(''config.json'', None), (''100.json'', post ''Roses'' ''roses'' [7])] ctx0) =
   Inr ([[]], [(''roses'', [(''ann@example.org'', ''Lovely'')])]) \<and>
   map_sum id (stdout \<circ> s_ctx)
     (build_blog ''example.org'' store0 garden
        [(''config.json'', None), (''100.json'', post ''Roses'' ''roses'' [7])] site0) =
   Inr [''Unused comments: roses''] \<and>
   map_sum id (\<lambda>s. (map e_slug (ls_entries (snd s)), map e_comments (ls_entries (snd s)), ls_comments (snd s)))
     (section_entries store0 birds ctx0) =
   Inr ([''2020-09-12.html'', ''2020-09-12-8.html''], [[(''ann@example.org'', ''Lovely'')], []], [])"
  by code_simp

subsection \<open>The chain of a blog against time\<close>

text \<open>
  Claim C3 asks that the links of a section form one chain in ascending chronological
  order. The links do form a chain in the order of the list, but the list of a blog is in
  the order of the file names: for the blog with a post of 2001 and a post of 2023, the
  chain starts at the post of 2023 and its forward link leads to the post of 2001.
\<close>

theorem blog_chain_runs_back_in_time:
  "map_sum id (map e_slug \<circ> ls_entries \<circ> snd) (blog_entries store0 garden two_posts ctx0) =
     Inr [''new.html'', ''old.html''] \<and>
   map_sum id (map e_datetime \<circ> ls_entries \<circ> snd) (blog_entries store0 garden two_posts ctx0) =
     Inr [Some 1700000000000000, Some 978307200000000] \<and>
   map_sum id (map e_forward \<circ> ls_entries \<circ> snd) (blog_entries store0 garden two_posts ctx0) =
     Inr [Some ''old.html'', None] \<and>
   map_sum id (map e_backward \<circ> ls_entries \<circ> snd) (blog_entries store0 garden two_posts ctx0) =
     Inr [None, Some ''new.html'']"
  by code_simp

end
